theory Spec2Isabelle
  imports Main "HOL-Library.Code_Target_Nat"
begin

section \<open>Values and strings of the JavaScript runtime\<close>

text \<open>
  The package utilities (\<^verbatim>\<open>src/fhirschema-js/src/utils.js\<close>, the Node variant, and
  \<^verbatim>\<open>src/unnamed/part_000\<close>, the fetch variant for browsers) read a gzip-compressed,
  newline-delimited JSON file. A JavaScript string is the list of its UTF-16 code units
  (\<open>jsString\<close>); \<open>lit s\<close> is the string of an ASCII literal. A package coordinate
  is a string of which the code below uses only equality and emptiness; it is kept as
  an Isabelle \<open>string\<close>. The values \<^verbatim>\<open>JSON.parse\<close> produces are the type \<open>json\<close>: an
  object is the list of its own properties (each name once), a number is held as the
  string \<^verbatim>\<open>String(n)\<close> gives for it (so \<open>JNum (lit ''0'')\<close> is the number zero, of either
  sign).
\<close>

type_synonym jsString = "nat list"

definition lit :: "string \<Rightarrow> jsString" where
  "lit s = map of_char s"

datatype json =
    JNull
  | JBool bool
  | JNum jsString
  | JStr jsString
  | JArr "json list"
  | JObj "(jsString \<times> json) list"

datatype js_error = SyntaxError | TypeError

text \<open>Truthiness, as \<^verbatim>\<open>if (x)\<close> and \<^verbatim>\<open>x && y\<close> test it.\<close>

fun truthy :: "json \<Rightarrow> bool" where
  "truthy JNull = False"
| "truthy (JBool b) = b"
| "truthy (JNum s) = (s \<noteq> lit ''0'')"
| "truthy (JStr s) = (s \<noteq> [])"
| "truthy (JArr xs) = True"
| "truthy (JObj kvs) = True"

text \<open>\<^verbatim>\<open>typeof x === "object"\<close> and \<^verbatim>\<open>Array.isArray(x)\<close>.\<close>

fun typeofObject :: "json \<Rightarrow> bool" where
  "typeofObject JNull = True"
| "typeofObject (JArr xs) = True"
| "typeofObject (JObj kvs) = True"
| "typeofObject v = False"

fun isArray :: "json \<Rightarrow> bool" where
  "isArray (JArr xs) = True"
| "isArray v = False"

text \<open>
  Reading one of the properties \<^verbatim>\<open>elements\<close>, \<^verbatim>\<open>kind\<close>, \<^verbatim>\<open>name\<close>, \<^verbatim>\<open>url\<close> of a value that
  is not \<^verbatim>\<open>null\<close>: an object gives its own property, every other value gives
  \<^verbatim>\<open>undefined\<close> (\<open>None\<close>), since no prototype of a parsed value has a property of
  these names. Reading a property of \<^verbatim>\<open>null\<close> throws; the caller tests for it first.
\<close>

fun getProp :: "json \<Rightarrow> jsString \<Rightarrow> json option" where
  "getProp (JObj kvs) k = map_of kvs k"
| "getProp v k = None"

text \<open>
  \<^verbatim>\<open>String(v)\<close>, which a property key \<^verbatim>\<open>obj[v]\<close> goes through. An array joins its
  elements with commas, \<^verbatim>\<open>null\<close> elements giving the empty string; an object gives
  \<^verbatim>\<open>[object Object]\<close>, unless it has an own property \<^verbatim>\<open>toString\<close>: a parsed value is
  never callable, and the conversion throws a TypeError (\<open>None\<close>).
\<close>

fun toStringJS :: "json \<Rightarrow> jsString option"
  and joinJS :: "json list \<Rightarrow> jsString option" where
  "toStringJS JNull = Some (lit ''null'')"
| "toStringJS (JBool b) = Some (if b then lit ''true'' else lit ''false'')"
| "toStringJS (JNum s) = Some s"
| "toStringJS (JStr s) = Some s"
| "toStringJS (JArr xs) = joinJS xs"
| "toStringJS (JObj kvs) =
     (if map_of kvs (lit ''toString'') = None then Some (lit ''[object Object]'') else None)"
| "joinJS [] = Some []"
| "joinJS (x # xs) =
     (case (if x = JNull then Some [] else toStringJS x) of
        None \<Rightarrow> None
      | Some a \<Rightarrow>
          (if xs = [] then Some a
           else (case joinJS xs of None \<Rightarrow> None | Some b \<Rightarrow> Some (a @ lit '','' @ b))))"

text \<open>
  The newline, the white space \<^verbatim>\<open>trim()\<close> removes (the code units of WhiteSpace and
  LineTerminator: tab, line feed, vertical tab, form feed, carriage return, space,
  no-break space, U+1680, U+2000 to U+200A, U+2028, U+2029, U+202F, U+205F, U+3000 and
  U+FEFF), and the delimiter text.
\<close>

definition newline :: nat where
  "newline = 0x0A"

definition isWhiteSpace :: "nat \<Rightarrow> bool" where
  "isWhiteSpace c =
     (List.member [0x09, 0x0A, 0x0B, 0x0C, 0x0D, 0x20, 0xA0, 0x1680, 0x2028, 0x2029, 0x202F,
                   0x205F, 0x3000, 0xFEFF] c \<or>
      (0x2000 \<le> c \<and> c \<le> 0x200A))"

definition delimiter :: jsString where
  "delimiter = lit ''fhir-schema/delimiter''"

text \<open>\<^verbatim>\<open>!line.trim()\<close>: nothing is left once the white space at both ends is removed.\<close>

definition trim :: "jsString \<Rightarrow> jsString" where
  "trim s = rev (dropWhile isWhiteSpace (rev (dropWhile isWhiteSpace s)))"

definition isBlank :: "jsString \<Rightarrow> bool" where
  "isBlank line = (trim line = [])"

text \<open>\<^verbatim>\<open>s.includes(p)\<close> and \<^verbatim>\<open>s.indexOf(c)\<close> (\<open>None\<close> for \<open>-1\<close>).\<close>

fun startsWith :: "jsString \<Rightarrow> jsString \<Rightarrow> bool" where
  "startsWith s [] = True"
| "startsWith [] (p # ps) = False"
| "startsWith (c # cs) (p # ps) = (c = p \<and> startsWith cs ps)"

fun includesStr :: "jsString \<Rightarrow> jsString \<Rightarrow> bool" where
  "includesStr [] p = (p = [])"
| "includesStr (c # cs) p = (startsWith (c # cs) p \<or> includesStr cs p)"

fun indexOf :: "jsString \<Rightarrow> nat \<Rightarrow> nat option" where
  "indexOf [] c = None"
| "indexOf (x # xs) c = (if x = c then Some 0 else map_option Suc (indexOf xs c))"

section \<open>Decoding the bytes of a stream\<close>

text \<open>
  Both variants decompress the body of the response and decode the bytes as UTF-8, the
  Node variant with \<^verbatim>\<open>chunk.toString()\<close> on every chunk (a \<^verbatim>\<open>Buffer\<close>) by itself, the
  fetch variant with one \<^verbatim>\<open>TextDecoderStream\<close> for the whole stream. A byte is a
  \<open>char\<close>. The decoder is the UTF-8 decoder of the Encoding Standard, which both
  runtimes follow: its state is the code point collected so far, the number of
  continuation bytes seen and needed, and the bounds for the next byte; a byte that
  cannot continue the sequence gives U+FFFD and is then read as the start of a
  sequence, and so does a sequence that the end of the input cuts.
\<close>

type_synonym bytes = "char list"

record decoder =
  codePoint :: nat
  bytesSeen :: nat
  bytesNeeded :: nat
  lowerBoundary :: nat
  upperBoundary :: nat

definition initialDecoder :: decoder where
  "initialDecoder =
     \<lparr>codePoint = 0, bytesSeen = 0, bytesNeeded = 0, lowerBoundary = 0x80, upperBoundary = 0xBF\<rparr>"

text \<open>A byte read when no sequence is open; the result is the new state and the output.\<close>

definition startSequence :: "nat \<Rightarrow> decoder \<times> nat list" where
  "startSequence b =
     (if b \<le> 0x7F then (initialDecoder, [b])
      else if 0xC2 \<le> b \<and> b \<le> 0xDF then
        (initialDecoder\<lparr>bytesNeeded := 1, codePoint := b - 0xC0\<rparr>, [])
      else if 0xE0 \<le> b \<and> b \<le> 0xEF then
        (initialDecoder\<lparr>bytesNeeded := 2, codePoint := b - 0xE0,
           lowerBoundary := (if b = 0xE0 then 0xA0 else 0x80),
           upperBoundary := (if b = 0xED then 0x9F else 0xBF)\<rparr>, [])
      else if 0xF0 \<le> b \<and> b \<le> 0xF4 then
        (initialDecoder\<lparr>bytesNeeded := 3, codePoint := b - 0xF0,
           lowerBoundary := (if b = 0xF0 then 0x90 else 0x80),
           upperBoundary := (if b = 0xF4 then 0x8F else 0xBF)\<rparr>, [])
      else (initialDecoder, [0xFFFD]))"

definition decodeByte :: "decoder \<Rightarrow> nat \<Rightarrow> decoder \<times> nat list" where
  "decodeByte d b =
     (if bytesNeeded d = 0 then startSequence b
      else if b < lowerBoundary d \<or> upperBoundary d < b then
        (case startSequence b of (d', out) \<Rightarrow> (d', 0xFFFD # out))
      else
        (let cp = codePoint d * 64 + (b - 0x80) in
         if Suc (bytesSeen d) = bytesNeeded d then (initialDecoder, [cp])
         else (d\<lparr>codePoint := cp, bytesSeen := Suc (bytesSeen d),
                 lowerBoundary := 0x80, upperBoundary := 0xBF\<rparr>, [])))"

fun decodeBytes :: "decoder \<Rightarrow> bytes \<Rightarrow> decoder \<times> nat list" where
  "decodeBytes d [] = (d, [])"
| "decodeBytes d (b # bs) =
     (case decodeByte d (of_char b) of
        (d1, out) \<Rightarrow> (case decodeBytes d1 bs of (d2, outs) \<Rightarrow> (d2, out @ outs)))"

definition endOfQueue :: "decoder \<Rightarrow> nat list" where
  "endOfQueue d = (if bytesNeeded d = 0 then [] else [0xFFFD])"

text \<open>The code units of a code point: itself, or a surrogate pair.\<close>

definition codeUnits :: "nat \<Rightarrow> jsString" where
  "codeUnits cp =
     (if cp < 0x10000 then [cp]
      else [0xD800 + (cp - 0x10000) div 0x400, 0xDC00 + (cp - 0x10000) mod 0x400])"

definition toUnits :: "nat list \<Rightarrow> jsString" where
  "toUnits cps = concat (map codeUnits cps)"

text \<open>
  \<^verbatim>\<open>chunk.toString()\<close> of a \<^verbatim>\<open>Buffer\<close>: the bytes of this chunk decoded from the initial
  state to the end of the chunk. A byte order mark is kept.
\<close>

definition toStringBuffer :: "bytes \<Rightarrow> jsString" where
  "toStringBuffer chunk =
     (case decodeBytes initialDecoder chunk of (d, out) \<Rightarrow> toUnits (out @ endOfQueue d))"

text \<open>
  \<^verbatim>\<open>new TextDecoderStream()\<close>: the decoder keeps its state from one chunk to the next;
  a byte order mark at the start of the stream is removed (once anything has been put
  out, the mark counts as seen); a chunk that decodes to the empty string is not passed
  on; when the stream ends, an open sequence gives U+FFFD.
\<close>

definition serialize :: "bool \<Rightarrow> nat list \<Rightarrow> bool \<times> nat list" where
  "serialize bomSeen out =
     (if bomSeen then (True, out)
      else (case out of
              [] \<Rightarrow> (False, [])
            | cp # cps \<Rightarrow> (True, if cp = 0xFEFF then cps else cp # cps)))"

definition enqueue :: "jsString \<Rightarrow> jsString list \<Rightarrow> jsString list" where
  "enqueue outputChunk queue = (if outputChunk = [] then queue else outputChunk # queue)"

fun textDecoderStream :: "decoder \<Rightarrow> bool \<Rightarrow> bytes list \<Rightarrow> jsString list" where
  "textDecoderStream d bomSeen [] =
     (case serialize bomSeen (endOfQueue d) of
        (seen, out) \<Rightarrow> enqueue (toUnits out) [])"
| "textDecoderStream d bomSeen (chunk # chunks) =
     (case decodeBytes d chunk of
        (d1, out) \<Rightarrow>
          (case serialize bomSeen out of
             (seen, out1) \<Rightarrow> enqueue (toUnits out1) (textDecoderStream d1 seen chunks)))"

section \<open>Loading the schemas of one package\<close>

text \<open>
  The object \<^verbatim>\<open>schemas\<close> is a plain object used as a map: its own properties are a map
  from keys to parsed values. An assignment \<^verbatim>\<open>schemas[key] = schema\<close> converts the key
  to a string and creates or replaces the own property, except under the key
  \<^verbatim>\<open>__proto__\<close>, where the inherited setter replaces the object's prototype and no own
  property appears. The prototype is read by nothing that follows
  (\<^verbatim>\<open>Object.assign\<close> copies own properties), so it is not part of the state.
\<close>

type_synonym schema_map = "jsString \<rightharpoonup> json"

definition setProp :: "schema_map \<Rightarrow> json \<Rightarrow> json \<Rightarrow> js_error + schema_map" where
  "setProp m key v =
     (case toStringJS key of
        None \<Rightarrow> Inl TypeError
      | Some k \<Rightarrow> Inr (if k = lit ''__proto__'' then m else m(k \<mapsto> v)))"

definition hasElements :: "json \<Rightarrow> bool" where
  "hasElements schema =
     (case getProp schema (lit ''elements'') of
        None \<Rightarrow> False
      | Some e \<Rightarrow> truthy e \<and> typeofObject e \<and> \<not> isArray e)"

definition isPrimitive :: "json \<Rightarrow> bool" where
  "isPrimitive schema = (getProp schema (lit ''kind'') = Some (JStr (lit ''primitive-type'')))"

text \<open>\<^verbatim>\<open>if (schema.p) schemas[schema.p] = schema;\<close>\<close>

definition storeUnder :: "jsString \<Rightarrow> json \<Rightarrow> schema_map \<Rightarrow> js_error + schema_map" where
  "storeUnder p schema m =
     (case getProp schema p of
        None \<Rightarrow> Inr m
      | Some key \<Rightarrow> if truthy key then setProp m key schema else Inr m)"

text \<open>
  What the loop does with a parsed line past the delimiter (the statements after
  \<^verbatim>\<open>JSON.parse\<close>). \<^verbatim>\<open>schema.elements\<close> throws a TypeError when the line was \<^verbatim>\<open>null\<close>.
\<close>

definition considerEntry :: "schema_map \<Rightarrow> json \<Rightarrow> js_error + schema_map" where
  "considerEntry m schema =
     (if schema = JNull then Inl TypeError
      else if hasElements schema \<or> isPrimitive schema then
        (case storeUnder (lit ''name'') schema m of
           Inl e \<Rightarrow> Inl e
         | Inr m1 \<Rightarrow> storeUnder (lit ''url'') schema m1)
      else Inr m)"

text \<open>
  The variables of \<^verbatim>\<open>loadPackageSchemas\<close>. \<^verbatim>\<open>JSON.parse\<close> belongs to the runtime and is
  a parameter \<open>parse\<close>; \<open>None\<close> is its SyntaxError.
\<close>

record loader_state =
  buffer :: jsString
  pastDelimiter :: bool
  schemas :: schema_map

definition initialState :: loader_state where
  "initialState = \<lparr>buffer = [], pastDelimiter = False, schemas = Map.empty\<rparr>"

text \<open>
  The body of the inner \<^verbatim>\<open>while\<close> loop, for one line taken off the buffer. The two
  files have the same text here (lines 156 to 178 of \<^verbatim>\<open>utils.js\<close>, lines 210 to 232 of
  \<^verbatim>\<open>part_000\<close>).
\<close>

definition lineBody ::
  "(jsString \<Rightarrow> json option) \<Rightarrow> loader_state \<Rightarrow> jsString \<Rightarrow> js_error + loader_state" where
  "lineBody parse st line =
     (if isBlank line then Inr st
      else if includesStr line delimiter then Inr (st\<lparr>pastDelimiter := True\<rparr>)
      else if pastDelimiter st then
        (case parse line of
           None \<Rightarrow> Inl SyntaxError
         | Some schema \<Rightarrow>
             (case considerEntry (schemas st) schema of
                Inl e \<Rightarrow> Inl e
              | Inr m \<Rightarrow> Inr (st\<lparr>schemas := m\<rparr>)))
      else Inr st)"

text \<open>An index found lies inside the text, and the loop body leaves the buffer alone.\<close>

lemma indexOf_less: "indexOf s c = Some i \<Longrightarrow> i < length s"
  by (induction s arbitrary: i) (auto split: if_splits)

lemma lineBody_buffer: "lineBody parse st line = Inr st' \<Longrightarrow> buffer st' = buffer st"
  by (auto simp: lineBody_def split: if_splits option.splits sum.splits)

subsection \<open>The fetch variant\<close>

text \<open>
  \<^verbatim>\<open>while ((newlineIndex = buffer.indexOf("\n")) !== -1) { ... }\<close> of
  \<^verbatim>\<open>src/unnamed/part_000\<close>.
\<close>

function drain_browser ::
  "(jsString \<Rightarrow> json option) \<Rightarrow> loader_state \<Rightarrow> js_error + loader_state" where
  "drain_browser parse st =
     (case indexOf (buffer st) newline of
        None \<Rightarrow> Inr st
      | Some newlineIndex \<Rightarrow>
          (case lineBody parse
                  (st\<lparr>buffer := drop (Suc newlineIndex) (buffer st)\<rparr>)
                  (take newlineIndex (buffer st)) of
             Inl e \<Rightarrow> Inl e
           | Inr st' \<Rightarrow> drain_browser parse st'))"
  by pat_completeness auto

termination drain_browser
proof (relation "measure (\<lambda>(parse, st). length (buffer st))")
  show "wf (measure (\<lambda>(parse, st). length (buffer st)))"
    by simp
next
  fix parse :: "jsString \<Rightarrow> json option" and st :: loader_state and i st'
  assume "indexOf (buffer st) newline = Some i"
    and "lineBody parse (st\<lparr>buffer := drop (Suc i) (buffer st)\<rparr>) (take i (buffer st)) = Inr st'"
  then show "((parse, st'), (parse, st)) \<in> measure (\<lambda>(parse, st). length (buffer st))"
    using indexOf_less [of "buffer st" newline i] lineBody_buffer [of parse _ _ st']
    by auto
qed

text \<open>
  The outer loop: \<^verbatim>\<open>reader.read()\<close> gives the decoded chunks one by one; each is
  appended to the buffer, which is then drained of its complete lines.
\<close>

fun readLoop_browser ::
  "(jsString \<Rightarrow> json option) \<Rightarrow> loader_state \<Rightarrow> jsString list \<Rightarrow> js_error + loader_state" where
  "readLoop_browser parse st [] = Inr st"
| "readLoop_browser parse st (chunk # chunks) =
     (case drain_browser parse (st\<lparr>buffer := buffer st @ chunk\<rparr>) of
        Inl e \<Rightarrow> Inl e
      | Inr st' \<Rightarrow> readLoop_browser parse st' chunks)"

text \<open>
  What a request gives: no response at all, or a response with its status code and the
  chunks of bytes that decompressing its body gives; \<open>bodyFails\<close> says that the body
  stream ends in an error (a truncated or corrupt gzip stream) after these chunks.
\<close>

record response =
  status :: nat
  body :: "bytes list"
  bodyFails :: bool

datatype fetched = NetworkError | Response response

text \<open>
  How a call ends: its promise is fulfilled, or rejected, or (Node variant only) an
  exception leaves an event listener, where nothing of the function catches it and
  nothing settles the promise.
\<close>

datatype reason = RequestFailed | NotFetched | StreamFailed | Threw js_error

datatype 'a outcome = Fulfilled 'a | Rejected reason | Uncaught js_error

text \<open>
  \<^verbatim>\<open>response.ok\<close>, and \<^verbatim>\<open>response.body === null\<close>: of the responses that are ok,
  those with the status 204 or 205 have no body.
\<close>

definition ok :: "response \<Rightarrow> bool" where
  "ok r = (200 \<le> status r \<and> status r \<le> 299)"

definition bodyIsNull :: "response \<Rightarrow> bool" where
  "bodyIsNull r = (status r = 204 \<or> status r = 205)"

text \<open>
  \<^verbatim>\<open>loadPackageSchemas\<close> of \<^verbatim>\<open>src/unnamed/part_000\<close> (lines 178 to 237), applied to
  what \<^verbatim>\<open>fetch(url)\<close> gives. A response that is not ok gives the empty map (and a
  warning); \<^verbatim>\<open>response.body.pipeThrough\<close> throws a TypeError when there is no body; an
  exception in the async function rejects its promise. The reader gets the chunks of
  the \<^verbatim>\<open>TextDecoderStream\<close>; the chunk it puts out when the stream ends has no
  newline, so it makes no difference that a failing stream does not put it out.
\<close>

definition loadPackageSchemas_browser ::
  "(jsString \<Rightarrow> json option) \<Rightarrow> fetched \<Rightarrow> schema_map outcome" where
  "loadPackageSchemas_browser parse f =
     (case f of
        NetworkError \<Rightarrow> Rejected RequestFailed
      | Response r \<Rightarrow>
          if \<not> ok r then Fulfilled Map.empty
          else if bodyIsNull r then Rejected (Threw TypeError)
          else (case readLoop_browser parse initialState
                       (textDecoderStream initialDecoder False (body r)) of
                  Inl e \<Rightarrow> Rejected (Threw e)
                | Inr st \<Rightarrow> if bodyFails r then Rejected StreamFailed
                            else Fulfilled (schemas st)))"

subsection \<open>The Node variant\<close>

text \<open>
  \<^verbatim>\<open>stream.on("data", (chunk) => { buffer += chunk.toString(); while ... })\<close> of
  \<^verbatim>\<open>src/fhirschema-js/src/utils.js\<close>: the loop of the listener, and the listener, which
  decodes the bytes of its chunk by themselves.
\<close>

function drain_node ::
  "(jsString \<Rightarrow> json option) \<Rightarrow> loader_state \<Rightarrow> js_error + loader_state" where
  "drain_node parse st =
     (case indexOf (buffer st) newline of
        None \<Rightarrow> Inr st
      | Some newlineIndex \<Rightarrow>
          (case lineBody parse
                  (st\<lparr>buffer := drop (Suc newlineIndex) (buffer st)\<rparr>)
                  (take newlineIndex (buffer st)) of
             Inl e \<Rightarrow> Inl e
           | Inr st' \<Rightarrow> drain_node parse st'))"
  by pat_completeness auto

termination drain_node
proof (relation "measure (\<lambda>(parse, st). length (buffer st))")
  show "wf (measure (\<lambda>(parse, st). length (buffer st)))"
    by simp
next
  fix parse :: "jsString \<Rightarrow> json option" and st :: loader_state and i st'
  assume "indexOf (buffer st) newline = Some i"
    and "lineBody parse (st\<lparr>buffer := drop (Suc i) (buffer st)\<rparr>) (take i (buffer st)) = Inr st'"
  then show "((parse, st'), (parse, st)) \<in> measure (\<lambda>(parse, st). length (buffer st))"
    using indexOf_less [of "buffer st" newline i] lineBody_buffer [of parse _ _ st']
    by auto
qed

definition onData_node ::
  "(jsString \<Rightarrow> json option) \<Rightarrow> loader_state \<Rightarrow> bytes \<Rightarrow> js_error + loader_state" where
  "onData_node parse st chunk =
     drain_node parse (st\<lparr>buffer := buffer st @ toStringBuffer chunk\<rparr>)"

text \<open>The \<^verbatim>\<open>data\<close> events of one stream, in order, until a listener throws.\<close>

fun dataEvents_node ::
  "(jsString \<Rightarrow> json option) \<Rightarrow> loader_state \<Rightarrow> bytes list \<Rightarrow> js_error + loader_state" where
  "dataEvents_node parse st [] = Inr st"
| "dataEvents_node parse st (chunk # chunks) =
     (case onData_node parse st chunk of
        Inl e \<Rightarrow> Inl e
      | Inr st' \<Rightarrow> dataEvents_node parse st' chunks)"

text \<open>
  \<^verbatim>\<open>loadPackageSchemas\<close> of \<^verbatim>\<open>src/fhirschema-js/src/utils.js\<close> (lines 131 to 187),
  applied to what \<^verbatim>\<open>https.get(url, ...)\<close> gives. Any status but 200 rejects; \<^verbatim>\<open>end\<close>
  resolves with the map, \<^verbatim>\<open>error\<close> rejects. An exception thrown by the \<^verbatim>\<open>data\<close>
  listener is caught by nothing in the function.
\<close>

definition loadPackageSchemas_node ::
  "(jsString \<Rightarrow> json option) \<Rightarrow> fetched \<Rightarrow> schema_map outcome" where
  "loadPackageSchemas_node parse f =
     (case f of
        NetworkError \<Rightarrow> Rejected RequestFailed
      | Response r \<Rightarrow>
          if status r \<noteq> 200 then Rejected NotFetched
          else (case dataEvents_node parse initialState (body r) of
                  Inl e \<Rightarrow> Uncaught e
                | Inr st \<Rightarrow> if bodyFails r then Rejected StreamFailed
                            else Fulfilled (schemas st)))"

section \<open>Reading one line of a package file\<close>

text \<open>
  \<^verbatim>\<open>getSpecificLineFromNdjson\<close> of \<^verbatim>\<open>src/unnamed/part_000\<close> (lines 29 to 70; the
  variant of \<^verbatim>\<open>utils.js\<close>, which rejects its promise where this one returns
  \<^verbatim>\<open>null\<close>, is not modelled). The inner loop takes
  complete lines off \<^verbatim>\<open>lineBuffer\<close> and counts them; at the target line it returns
  \<^verbatim>\<open>JSON.parse(line)\<close>, and a SyntaxError is caught by the function's \<^verbatim>\<open>catch\<close>, which
  returns \<^verbatim>\<open>null\<close>. \<open>Inl\<close> is the value returned, \<open>Inr\<close> the variables when the loop
  is left without a \<^verbatim>\<open>return\<close>.
\<close>

function scanBuffer_browser ::
  "(jsString \<Rightarrow> json option) \<Rightarrow> nat \<Rightarrow> nat \<times> jsString \<Rightarrow> json + nat \<times> jsString" where
  "scanBuffer_browser parse targetLine (currentLine, lineBuffer) =
     (case indexOf lineBuffer newline of
        None \<Rightarrow> Inr (currentLine, lineBuffer)
      | Some newlineIndex \<Rightarrow>
          (if Suc currentLine = targetLine
           then Inl (case parse (take newlineIndex lineBuffer) of
                       None \<Rightarrow> JNull
                     | Some parsed \<Rightarrow> parsed)
           else scanBuffer_browser parse targetLine
                  (Suc currentLine, drop (Suc newlineIndex) lineBuffer)))"
  by pat_completeness auto

termination scanBuffer_browser
  by (relation "measure (\<lambda>(parse, targetLine, currentLine, lineBuffer). length lineBuffer)")
    (auto dest: indexOf_less)

fun scanChunks_browser ::
  "(jsString \<Rightarrow> json option) \<Rightarrow> nat \<Rightarrow> nat \<times> jsString \<Rightarrow> jsString list \<Rightarrow> json" where
  "scanChunks_browser parse targetLine (currentLine, lineBuffer) [] = JNull"
| "scanChunks_browser parse targetLine (currentLine, lineBuffer) (chunk # chunks) =
     (case scanBuffer_browser parse targetLine (currentLine, lineBuffer @ chunk) of
        Inl parsed \<Rightarrow> parsed
      | Inr vars \<Rightarrow> scanChunks_browser parse targetLine vars chunks)"

text \<open>
  A failed request, a response that is not ok, a response without a body (the
  TypeError is caught) and a failing body stream all end in \<^verbatim>\<open>null\<close>, as does a
  stream that ends before the target line.
\<close>

definition getSpecificLineFromNdjson_browser ::
  "(jsString \<Rightarrow> json option) \<Rightarrow> fetched \<Rightarrow> nat \<Rightarrow> json" where
  "getSpecificLineFromNdjson_browser parse f targetLine =
     (case f of
        NetworkError \<Rightarrow> JNull
      | Response r \<Rightarrow>
          if \<not> ok r then JNull
          else if bodyIsNull r then JNull
          else scanChunks_browser parse targetLine (0, [])
                 (textDecoderStream initialDecoder False (body r)))"

section \<open>Resolving the dependency tree\<close>

text \<open>
  A \<^verbatim>\<open>Set\<close> of coordinates is the list of its members in insertion order.
  \<^verbatim>\<open>new Set(xs)\<close> keeps the first occurrence of each member.
\<close>

definition newSet :: "string list \<Rightarrow> string list" where
  "newSet xs = rev (remdups (rev xs))"

definition difference :: "string list \<Rightarrow> string list \<Rightarrow> string list" where
  "difference setA setB = newSet (filter (\<lambda>x. x \<notin> set setB) setA)"

text \<open>\<^verbatim>\<open>filter(identity)\<close> on coordinates keeps the non-empty ones.\<close>

definition identity :: "string \<Rightarrow> bool" where
  "identity x = (x \<noteq> [])"

text \<open>
  \<^verbatim>\<open>Promise.all\<close>: fulfilled with the values, in the order of the list, when every
  promise of the list is fulfilled (\<open>Some\<close>), and not fulfilled otherwise.
\<close>

fun promiseAll :: "'a option list \<Rightarrow> 'a list option" where
  "promiseAll [] = Some []"
| "promiseAll (p # ps) =
     (case p of
        None \<Rightarrow> None
      | Some x \<Rightarrow> (case promiseAll ps of None \<Rightarrow> None | Some xs \<Rightarrow> Some (x # xs)))"

text \<open>The two sets \<^verbatim>\<open>dependencyResolver\<close> passes to its recursive call.\<close>

definition nextVisited :: "string list \<Rightarrow> string list \<Rightarrow> string list" where
  "nextVisited visitedDeps enqueuedDeps = newSet (visitedDeps @ enqueuedDeps)"

definition nextEnqueued :: "string list list \<Rightarrow> string list \<Rightarrow> string list" where
  "nextEnqueued resolvedPromises visitedDeps =
     newSet (difference (newSet (filter identity (concat resolvedPromises)))
               (newSet visitedDeps))"

text \<open>
  \<^verbatim>\<open>dependencyResolver\<close> (the same text in both files: lines 92 to 107 of
  \<^verbatim>\<open>utils.js\<close>, lines 138 to 153 of \<^verbatim>\<open>part_000\<close>) and \<^verbatim>\<open>resolveDeps\<close>.
  \<^verbatim>\<open>getPackageDeps\<close> reads the registry and is a parameter: \<open>Some\<close> of the
  coordinates its promise is fulfilled with, \<open>None\<close> when it rejects. The outer
  \<open>None\<close> of the result is a recursion that never ends, the inner one a rejected
  promise.
\<close>

partial_function (option) dependencyResolver ::
  "(string \<Rightarrow> string list option) \<Rightarrow> string list \<Rightarrow> string list \<Rightarrow> string list option option" where
  "dependencyResolver getPackageDeps visitedDeps enqueuedDeps =
     (if enqueuedDeps = [] then Some (Some visitedDeps)
      else (case promiseAll (map getPackageDeps enqueuedDeps) of
              None \<Rightarrow> Some None
            | Some resolvedPromises \<Rightarrow>
                dependencyResolver getPackageDeps
                  (nextVisited visitedDeps enqueuedDeps)
                  (nextEnqueued resolvedPromises visitedDeps)))"

definition resolveDeps ::
  "(string \<Rightarrow> string list option) \<Rightarrow> string list \<Rightarrow> string list option option" where
  "resolveDeps getPackageDeps packageCoordinates =
     dependencyResolver getPackageDeps [] (newSet packageCoordinates)"

section \<open>Creating the validation context\<close>

text \<open>
  \<^verbatim>\<open>Object.assign(allSchemas, schemas)\<close> sets every own property of the source on the
  target, which is a plain object: an assignment under the key \<^verbatim>\<open>__proto__\<close> creates no
  own property. The maps \<^verbatim>\<open>loadPackageSchemas\<close> returns have no own property of that
  name (shown below), so the prototype of \<^verbatim>\<open>allSchemas\<close> stays \<^verbatim>\<open>Object.prototype\<close>.
\<close>

definition objectAssign :: "schema_map \<Rightarrow> schema_map \<Rightarrow> schema_map" where
  "objectAssign target source =
     (\<lambda>k. if k = lit ''__proto__'' then target k
          else (case source k of None \<Rightarrow> target k | Some v \<Rightarrow> Some v))"

definition mergeSchemas :: "schema_map list \<Rightarrow> schema_map" where
  "mergeSchemas schemaArrays = foldl objectAssign Map.empty schemaArrays"

text \<open>
  What \<^verbatim>\<open>allSchemas[schemaName]\<close> evaluates to: the own property when there is one,
  otherwise the property \<^verbatim>\<open>allSchemas\<close> inherits from \<^verbatim>\<open>Object.prototype\<close> under that
  name, otherwise \<^verbatim>\<open>undefined\<close>.
\<close>

datatype resolved = Undefined | Schema json | Inherited jsString

definition objectPrototypeKeys :: "jsString list" where
  "objectPrototypeKeys =
     map lit
       [''constructor'', ''hasOwnProperty'', ''isPrototypeOf'', ''propertyIsEnumerable'',
        ''toLocaleString'', ''toString'', ''valueOf'', ''__proto__'',
        ''__defineGetter__'', ''__defineSetter__'', ''__lookupGetter__'', ''__lookupSetter__'']"

definition readProperty :: "schema_map \<Rightarrow> jsString \<Rightarrow> resolved" where
  "readProperty allSchemas schemaName =
     (case allSchemas schemaName of
        Some s \<Rightarrow> Schema s
      | None \<Rightarrow> if List.member objectPrototypeKeys schemaName then Inherited schemaName
                else Undefined)"

record fhirSchemaContext =
  schemaResolver :: "jsString \<Rightarrow> resolved"

fun fulfilled :: "'a outcome \<Rightarrow> 'a option" where
  "fulfilled (Fulfilled x) = Some x"
| "fulfilled (Rejected r) = None"
| "fulfilled (Uncaught e) = None"

text \<open>
  \<^verbatim>\<open>createContext\<close> (the same text in both files: lines 195 to 211 of \<^verbatim>\<open>utils.js\<close>,
  lines 245 to 261 of \<^verbatim>\<open>part_000\<close>), over the \<^verbatim>\<open>loadPackageSchemas\<close> and the
  \<^verbatim>\<open>getPackageDeps\<close> of its file. The outer \<open>None\<close> is a dependency resolution
  that never ends; the inner one is a call that gives no context, because a promise
  it awaits is not fulfilled. The context is an object with the one property
  \<^verbatim>\<open>schemaResolver\<close>.
\<close>

definition createContext ::
  "(string \<Rightarrow> schema_map outcome) \<Rightarrow> (string \<Rightarrow> string list option) \<Rightarrow> string list
     \<Rightarrow> fhirSchemaContext option option" where
  "createContext loadPackageSchemas getPackageDeps packageCoordinates =
     (case resolveDeps getPackageDeps packageCoordinates of
        None \<Rightarrow> None
      | Some None \<Rightarrow> Some None
      | Some (Some allPackages) \<Rightarrow>
          Some (case promiseAll (map (\<lambda>c. fulfilled (loadPackageSchemas c)) allPackages) of
                  None \<Rightarrow> None
                | Some schemaArrays \<Rightarrow>
                    Some \<lparr>schemaResolver = readProperty (mergeSchemas schemaArrays)\<rparr>))"

text \<open>
  The two variants. \<open>registry\<close> is what a request for a package's file gives.
\<close>

definition createContext_browser ::
  "(jsString \<Rightarrow> json option) \<Rightarrow> (string \<Rightarrow> fetched) \<Rightarrow> (string \<Rightarrow> string list option)
     \<Rightarrow> string list \<Rightarrow> fhirSchemaContext option option" where
  "createContext_browser parse registry =
     createContext (\<lambda>c. loadPackageSchemas_browser parse (registry c))"

definition createContext_node ::
  "(jsString \<Rightarrow> json option) \<Rightarrow> (string \<Rightarrow> fetched) \<Rightarrow> (string \<Rightarrow> string list option)
     \<Rightarrow> string list \<Rightarrow> fhirSchemaContext option option" where
  "createContext_node parse registry =
     createContext (\<lambda>c. loadPackageSchemas_node parse (registry c))"

section \<open>The declared interface of the core\<close>

text \<open>
  The validator itself (\<^verbatim>\<open>src/index.js\<close>, with \<^verbatim>\<open>validate\<close>, \<^verbatim>\<open>enumerateElements\<close> and
  \<^verbatim>\<open>validateElementValue\<close>) is not among the sources; its type declarations
  \<^verbatim>\<open>src/fhirschema-js/src/index.d.ts\<close> and its tests are. These are the two
  \<^verbatim>\<open>export function\<close> declarations of \<^verbatim>\<open>index.d.ts\<close>, and the names
  \<^verbatim>\<open>tests/tests.test.js\<close> imports from \<^verbatim>\<open>../src/index.js\<close>.
\<close>

record functionDeclaration =
  declaredName :: string
  parameters :: "(string \<times> string) list"
  returnType :: string

definition declaredFunctions :: "functionDeclaration list" where
  "declaredFunctions =
     [\<lparr>declaredName = ''enumerateElements'',
       parameters = [(''ctx'', ''FhirSchemaContext''), (''schemaNames'', ''string[]'')],
       returnType = ''Record<string, EnumeratedElement>''\<rparr>,
      \<lparr>declaredName = ''validate'',
       parameters = [(''ctx'', ''FhirSchemaContext''), (''schemaNames'', ''string[]''),
                     (''data'', ''unknown'')],
       returnType = ''ValidationResult''\<rparr>]"

definition importedByTests :: "string list" where
  "importedByTests = [''validate'', ''enumerateElements'', ''validateElementValue'']"

definition declares :: "string \<Rightarrow> bool" where
  "declares f = List.member (map declaredName declaredFunctions) f"

section \<open>The vocabulary of the statements\<close>

subsection \<open>The text of a stream\<close>

text \<open>
  The text each variant makes of the chunks of a response: the chunks of the
  \<^verbatim>\<open>TextDecoderStream\<close> one after the other, and the chunks decoded one by one. The
  line feed as a byte, and the chunks of a stream cut off after its first \<open>n\<close> bytes.
\<close>

definition text_browser :: "response \<Rightarrow> jsString" where
  "text_browser r = concat (textDecoderStream initialDecoder False (body r))"

definition text_node :: "response \<Rightarrow> jsString" where
  "text_node r = concat (map toStringBuffer (body r))"

definition lineFeed :: char where
  "lineFeed = CHR 0x0A"

fun takeBytes :: "nat \<Rightarrow> bytes list \<Rightarrow> bytes list" where
  "takeBytes n [] = []"
| "takeBytes n (chunk # chunks) =
     (if n \<le> length chunk then [take n chunk]
      else chunk # takeBytes (n - length chunk) chunks)"

text \<open>
  The code points of a byte sequence decoded to its end, and the same without a byte
  order mark at their start; the text the \<^verbatim>\<open>TextDecoderStream\<close> makes of the bytes of
  a whole stream; the states of the decoder that an open sequence can be in.
\<close>

definition decodeAll :: "decoder \<Rightarrow> bytes \<Rightarrow> nat list" where
  "decodeAll d bs = (case decodeBytes d bs of (d', out) \<Rightarrow> out @ endOfQueue d')"

definition stripBOM :: "nat list \<Rightarrow> nat list" where
  "stripBOM cps = (case cps of [] \<Rightarrow> [] | cp # rest \<Rightarrow> if cp = 0xFEFF then rest else cp # rest)"

definition streamText :: "bytes \<Rightarrow> jsString" where
  "streamText bs = toUnits (stripBOM (decodeAll initialDecoder bs))"

definition wellFormed :: "decoder \<Rightarrow> bool" where
  "wellFormed d =
     (bytesNeeded d \<noteq> 0 \<longrightarrow>
        0x80 \<le> lowerBoundary d \<and> (1 \<le> codePoint d \<or> 0x90 \<le> lowerBoundary d))"

subsection \<open>Lines and entry lines\<close>

text \<open>
  The newline-terminated lines of a text, in order, and what follows its last newline.
\<close>

function completeLines :: "jsString \<Rightarrow> jsString list" where
  "completeLines s =
     (case indexOf s newline of
        None \<Rightarrow> []
      | Some i \<Rightarrow> take i s # completeLines (drop (Suc i) s))"
  by pat_completeness auto
termination
  by (relation "measure length") (auto dest: indexOf_less)

function unterminated :: "jsString \<Rightarrow> jsString" where
  "unterminated s =
     (case indexOf s newline of
        None \<Rightarrow> s
      | Some i \<Rightarrow> unterminated (drop (Suc i) s))"
  by pat_completeness auto
termination
  by (relation "measure length") (auto dest: indexOf_less)

text \<open>
  The lines after the first line that contains the delimiter text, and among them the
  lines the loop hands to \<^verbatim>\<open>JSON.parse\<close>: those that are not blank and do not contain
  the delimiter text themselves.
\<close>

definition afterDelimiter :: "jsString list \<Rightarrow> jsString list" where
  "afterDelimiter ls = drop 1 (dropWhile (\<lambda>l. \<not> includesStr l delimiter) ls)"

definition isEntryLine :: "jsString \<Rightarrow> bool" where
  "isEntryLine l = (\<not> isBlank l \<and> \<not> includesStr l delimiter)"

definition entryLines :: "jsString \<Rightarrow> jsString list" where
  "entryLines t = filter isEntryLine (afterDelimiter (completeLines t))"

text \<open>
  Parsing and considering lines one after the other, until one of them throws.
\<close>

fun considerAll ::
  "(jsString \<Rightarrow> json option) \<Rightarrow> schema_map \<Rightarrow> jsString list \<Rightarrow> js_error + schema_map" where
  "considerAll parse m [] = Inr m"
| "considerAll parse m (l # ls) =
     (case parse l of
        None \<Rightarrow> Inl SyntaxError
      | Some v \<Rightarrow>
          (case considerEntry m v of
             Inl e \<Rightarrow> Inl e
           | Inr m' \<Rightarrow> considerAll parse m' ls))"

text \<open>
  What \<^verbatim>\<open>getSpecificLineFromNdjson\<close> returns for a line it has reached.
\<close>

definition lineValue :: "(jsString \<Rightarrow> json option) \<Rightarrow> jsString \<Rightarrow> json" where
  "lineValue parse line = (case parse line of None \<Rightarrow> JNull | Some parsed \<Rightarrow> parsed)"

subsection \<open>The keys of an entry\<close>

text \<open>
  The property \<open>p\<close> of a value, when truthy, converts to a string (so that
  \<^verbatim>\<open>schemas[schema.p] = schema\<close> does not throw).
\<close>

definition keyConverts :: "json \<Rightarrow> jsString \<Rightarrow> bool" where
  "keyConverts v p =
     (case getProp v p of
        None \<Rightarrow> True
      | Some key \<Rightarrow> \<not> truthy key \<or> toStringJS key \<noteq> None)"

text \<open>
  The key that \<^verbatim>\<open>if (schema.p) schemas[schema.p] = schema\<close> stores a value under, the
  keys of a value (from its \<^verbatim>\<open>name\<close> and its \<^verbatim>\<open>url\<close>), the test of the loop for an
  entry to be stored, and the last value of a list that is stored under a key.
\<close>

definition keyUnder :: "jsString \<Rightarrow> json \<Rightarrow> jsString option" where
  "keyUnder p v =
     (case getProp v p of
        None \<Rightarrow> None
      | Some key \<Rightarrow> if truthy key then toStringJS key else None)"

definition entryKeys :: "json \<Rightarrow> jsString list" where
  "entryKeys v = List.map_filter (\<lambda>p. keyUnder p v) [lit ''name'', lit ''url'']"

definition retained :: "json \<Rightarrow> bool" where
  "retained v = (hasElements v \<or> isPrimitive v)"

definition lastRetained :: "jsString \<Rightarrow> json list \<Rightarrow> json option" where
  "lastRetained k vs =
     (case filter (\<lambda>v. retained v \<and> List.member (entryKeys v) k) vs of
        [] \<Rightarrow> None
      | w # ws \<Rightarrow> Some (last (w # ws)))"

subsection \<open>Dependencies and packages\<close>

text \<open>
  The coordinates \<^verbatim>\<open>dependencyResolver\<close> enqueues for a coordinate, the dependency
  relation they make, and the coordinates reachable from a list of coordinates.
\<close>

definition childDeps :: "(string \<Rightarrow> string list option) \<Rightarrow> string \<Rightarrow> string list" where
  "childDeps getPackageDeps c =
     (case getPackageDeps c of None \<Rightarrow> [] | Some ds \<Rightarrow> filter identity ds)"

definition depEdges :: "(string \<Rightarrow> string list option) \<Rightarrow> (string \<times> string) set" where
  "depEdges getPackageDeps = {(c, d). d \<in> set (childDeps getPackageDeps c)}"

definition reachable :: "(string \<Rightarrow> string list option) \<Rightarrow> string list \<Rightarrow> string set" where
  "reachable getPackageDeps coords = (depEdges getPackageDeps)\<^sup>* `` set coords"

text \<open>
  The value of a key in the last map of a list that has the key.
\<close>

definition latestDefinition :: "jsString \<Rightarrow> schema_map list \<Rightarrow> json option" where
  "latestDefinition k ms =
     (case filter (\<lambda>m. m k \<noteq> None) ms of
        [] \<Rightarrow> None
      | f # fs \<Rightarrow> last (f # fs) k)"

section \<open>Sample package files\<close>

text \<open>
  A few lines of a package file, as bytes and as text, and the values \<^verbatim>\<open>JSON.parse\<close>
  gives for them; the parser of the examples knows exactly these texts. The line
  \<open>lineCafe\<close> has the two bytes of the letter U+00E9 in its name; \<open>textCafeCut\<close> is
  what it decodes to when the two bytes are decoded apart.
\<close>

definition lineMeta :: bytes where
  \<open>lineMeta = ''{"name":"ig","dependencies":[":core"]}''\<close>

definition textMeta :: jsString where
  "textMeta = lit lineMeta"

definition valueMeta :: json where
  "valueMeta =
     JObj [(lit ''name'', JStr (lit ''ig'')),
           (lit ''dependencies'', JArr [JStr (lit '':core'')])]"

definition lineMetaCore :: bytes where
  \<open>lineMetaCore = ''{"name":"core"}''\<close>

definition textMetaCore :: jsString where
  "textMetaCore = lit lineMetaCore"

definition valueMetaCore :: json where
  "valueMetaCore = JObj [(lit ''name'', JStr (lit ''core''))]"

definition lineA :: bytes where
  \<open>lineA = ''{"name":"A","url":"http://example.org/A","kind":"primitive-type"}''\<close>

definition textA :: jsString where
  "textA = lit lineA"

definition valueA :: json where
  "valueA =
     JObj [(lit ''name'', JStr (lit ''A'')), (lit ''url'', JStr (lit ''http://example.org/A'')),
           (lit ''kind'', JStr (lit ''primitive-type''))]"

definition lineB :: bytes where
  \<open>lineB = ''{"name":"A","url":"http://example.org/B","elements":{}}''\<close>

definition textB :: jsString where
  "textB = lit lineB"

definition valueB :: json where
  "valueB =
     JObj [(lit ''name'', JStr (lit ''A'')), (lit ''url'', JStr (lit ''http://example.org/B'')),
           (lit ''elements'', JObj [])]"

definition lineD :: bytes where
  \<open>lineD = ''{"name":"D","url":"http://example.org/fhir-schema/delimiter","kind":"primitive-type"}''\<close>

definition textD :: jsString where
  "textD = lit lineD"

definition valueD :: json where
  "valueD =
     JObj [(lit ''name'', JStr (lit ''D'')),
           (lit ''url'', JStr (lit ''http://example.org/fhir-schema/delimiter'')),
           (lit ''kind'', JStr (lit ''primitive-type''))]"

definition lineT :: bytes where
  \<open>lineT = ''{"name":{"toString":1},"elements":{}}''\<close>

definition textT :: jsString where
  "textT = lit lineT"

definition valueT :: json where
  "valueT =
     JObj [(lit ''name'', JObj [(lit ''toString'', JNum (lit ''1''))]),
           (lit ''elements'', JObj [])]"

definition lineCafe :: bytes where
  \<open>lineCafe = ''{"name":"caf'' @ [CHR 0xC3, CHR 0xA9] @ ''","kind":"primitive-type"}''\<close>

definition textCafe :: jsString where
  \<open>textCafe = lit ''{"name":"caf'' @ [0xE9] @ lit ''","kind":"primitive-type"}''\<close>

definition valueCafe :: json where
  "valueCafe =
     JObj [(lit ''name'', JStr (lit ''caf'' @ [0xE9])),
           (lit ''kind'', JStr (lit ''primitive-type''))]"

definition textCafeCut :: jsString where
  \<open>textCafeCut = lit ''{"name":"caf'' @ [0xFFFD, 0xFFFD] @ lit ''","kind":"primitive-type"}''\<close>

definition valueCafeCut :: json where
  "valueCafeCut =
     JObj [(lit ''name'', JStr (lit ''caf'' @ [0xFFFD, 0xFFFD])),
           (lit ''kind'', JStr (lit ''primitive-type''))]"

definition sampleParse :: "jsString \<Rightarrow> json option" where
  "sampleParse =
     map_of [(textMeta, valueMeta), (textMetaCore, valueMetaCore), (textA, valueA),
             (textB, valueB), (textD, valueD), (textT, valueT), (textCafe, valueCafe),
             (textCafeCut, valueCafeCut), (lit ''null'', JNull)]"

definition delimiterLine :: bytes where
  \<open>delimiterLine = ''["fhir-schema/delimiter"]''\<close>

definition delimiterText :: jsString where
  "delimiterText = lit delimiterLine"

text \<open>
  Responses of the registry. Their bodies arrive in chunks that cut lines anywhere.
\<close>

definition secondDelimiterResponse :: response where
  "secondDelimiterResponse =
     \<lparr>status = 200, body = [delimiterLine @ [lineFeed] @ lineD @ [lineFeed]], bodyFails = False\<rparr>"

definition unterminatedResponse :: response where
  "unterminatedResponse =
     \<lparr>status = 200,
      body = [lineMeta @ [lineFeed] @ take 7 delimiterLine,
              drop 7 delimiterLine @ [lineFeed] @ take 20 lineA, drop 20 lineA],
      bodyFails = False\<rparr>"

definition chunkedResponse :: response where
  "chunkedResponse =
     \<lparr>status = 200,
      body = [lineMeta @ [lineFeed], delimiterLine @ [lineFeed] @ lineCafe @ [lineFeed]],
      bodyFails = False\<rparr>"

definition rechunkedResponse :: response where
  "rechunkedResponse =
     \<lparr>status = 200,
      body = [take 9 lineMeta, drop 9 lineMeta @ [lineFeed] @ delimiterLine,
              [lineFeed] @ take 13 lineCafe, drop 13 lineCafe @ [lineFeed]],
      bodyFails = False\<rparr>"

definition nullEntryResponse :: response where
  "nullEntryResponse =
     \<lparr>status = 200, body = [delimiterLine @ [lineFeed] @ ''null'' @ [lineFeed]], bodyFails = False\<rparr>"

definition unconvertibleResponse :: response where
  "unconvertibleResponse =
     \<lparr>status = 200, body = [delimiterLine @ [lineFeed] @ lineT @ [lineFeed]], bodyFails = False\<rparr>"

definition createdResponse :: response where
  "createdResponse =
     \<lparr>status = 201, body = [delimiterLine @ [lineFeed] @ lineA @ [lineFeed]], bodyFails = False\<rparr>"

definition cutResponse :: response where
  "cutResponse =
     \<lparr>status = 200,
      body = [delimiterLine @ [lineFeed] @ take 13 lineCafe, drop 13 lineCafe @ [lineFeed]],
      bodyFails = False\<rparr>"



definition igResponse :: response where
  "igResponse =
     \<lparr>status = 200,
      body = [lineMeta @ [lineFeed] @ delimiterLine, [lineFeed] @ lineB @ [lineFeed]],
      bodyFails = False\<rparr>"

definition coreResponse :: response where
  "coreResponse =
     \<lparr>status = 200,
      body = [lineMetaCore @ [lineFeed], delimiterLine @ [lineFeed] @ lineA @ [lineFeed]],
      bodyFails = False\<rparr>"

definition igMap :: schema_map where
  "igMap = [lit ''A'' \<mapsto> valueB, lit ''http://example.org/B'' \<mapsto> valueB]"

definition coreMap :: schema_map where
  "coreMap = [lit ''A'' \<mapsto> valueA, lit ''http://example.org/A'' \<mapsto> valueA]"

definition cafeMap :: schema_map where
  "cafeMap = [lit ''caf'' @ [0xE9] \<mapsto> valueCafe]"

definition cafeCutMap :: schema_map where
  "cafeCutMap = [lit ''caf'' @ [0xFFFD, 0xFFFD] \<mapsto> valueCafeCut]"

definition sampleRegistry :: "string \<Rightarrow> fetched" where
  "sampleRegistry c =
     (if c = ''ig'' then Response igResponse
      else if c = ''core'' then Response coreResponse
      else NetworkError)"

text \<open>
  Dependency relations: one with a cycle between \<open>ig\<close> and \<open>ext\<close> (and an empty
  coordinate, which \<^verbatim>\<open>filter(identity)\<close> drops), one in which \<open>ig\<close> depends on
  \<open>core\<close>, and the one of the sample registry: the first line of the file of \<open>ig\<close>
  names the dependency \<^verbatim>\<open>:core\<close>, of which \<^verbatim>\<open>normalizePackageDeps\<close> removes the first
  character, and the first line of the file of \<open>core\<close> names none.
\<close>

definition cyclicDeps :: "string \<Rightarrow> string list option" where
  "cyclicDeps c =
     (if c = ''ig'' then Some [''core'', ''ext'']
      else if c = ''ext'' then Some [''ig'', '''']
      else if c = ''core'' then Some []
      else None)"

definition overlapDeps :: "string \<Rightarrow> string list option" where
  "overlapDeps c = (if c = ''ig'' then Some [''core''] else Some [])"

definition registryDeps :: "string \<Rightarrow> string list option" where
  "registryDeps c = (if c = ''ig'' then Some [''core''] else Some [])"

section \<open>The loops read the complete lines of the text\<close>

declare drain_browser.simps [simp del] drain_node.simps [simp del]

declare completeLines.simps [simp del] unterminated.simps [simp del]

declare scanBuffer_browser.simps [simp del]

declare dependencyResolver.simps [code]

text \<open>
  The loop body applied to a list of lines, and a result with its buffer replaced.
\<close>

fun runLines ::
  "(jsString \<Rightarrow> json option) \<Rightarrow> loader_state \<Rightarrow> jsString list \<Rightarrow> js_error + loader_state" where
  "runLines parse st [] = Inr st"
| "runLines parse st (l # ls) =
     (case lineBody parse st l of
        Inl e \<Rightarrow> Inl e
      | Inr st' \<Rightarrow> runLines parse st' ls)"

definition withBuffer :: "jsString \<Rightarrow> js_error + loader_state \<Rightarrow> js_error + loader_state" where
  "withBuffer b r = (case r of Inl e \<Rightarrow> Inl e | Inr st \<Rightarrow> Inr (st\<lparr>buffer := b\<rparr>))"

lemma withBuffer_simps [simp]:
  "withBuffer b (Inl e) = Inl e"
  "withBuffer b (Inr st) = Inr (st\<lparr>buffer := b\<rparr>)"
  by (simp_all add: withBuffer_def)

lemma withBuffer_twice [simp]: "withBuffer b (withBuffer c r) = withBuffer b r"
  by (cases r) simp_all

lemma lineBody_withBuffer:
  "lineBody parse (st\<lparr>buffer := b\<rparr>) l = withBuffer b (lineBody parse st l)"
  by (simp add: lineBody_def split: option.splits sum.splits)

lemma runLines_withBuffer:
  "runLines parse (st\<lparr>buffer := b\<rparr>) ls = withBuffer b (runLines parse st ls)"
proof (induction ls arbitrary: st)
  case Nil
  show ?case by simp
next
  case (Cons l ls)
  show ?case
  proof (cases "lineBody parse st l")
    case (Inl e)
    then show ?thesis by (simp add: lineBody_withBuffer)
  next
    case (Inr st1)
    then show ?thesis using Cons.IH [of st1] by (simp add: lineBody_withBuffer)
  qed
qed

lemma runLines_append:
  "runLines parse st (xs @ ys) =
     (case runLines parse st xs of Inl e \<Rightarrow> Inl e | Inr st' \<Rightarrow> runLines parse st' ys)"
  by (induction xs arbitrary: st) (auto split: sum.splits)

lemma runLines_buffer: "runLines parse st ls = Inr st' \<Longrightarrow> buffer st' = buffer st"
proof (induction ls arbitrary: st)
  case Nil
  then show ?case by simp
next
  case (Cons l ls)
  then show ?case
    by (auto split: sum.splits dest: lineBody_buffer)
qed

lemma indexOf_None_iff: "indexOf s c = None \<longleftrightarrow> c \<notin> set s"
  by (induction s) auto

lemma indexOf_append: "indexOf a c = Some i \<Longrightarrow> indexOf (a @ b) c = Some i"
  by (induction a arbitrary: i) (auto split: if_splits)

lemma completeLines_no_newline: "newline \<notin> set s \<Longrightarrow> completeLines s = []"
  by (simp add: completeLines.simps [of s] indexOf_None_iff [symmetric])

lemma unterminated_no_newline: "newline \<notin> set s \<Longrightarrow> unterminated s = s"
  by (simp add: unterminated.simps [of s] indexOf_None_iff [symmetric])

lemma unterminated_newline_free: "newline \<notin> set (unterminated s)"
proof (induction s rule: unterminated.induct)
  case (1 s)
  show ?case
  proof (cases "indexOf s newline")
    case None
    then have "newline \<notin> set s"
      by (simp add: indexOf_None_iff)
    then show ?thesis
      by (simp add: unterminated_no_newline)
  next
    case (Some i)
    with "1.IH" show ?thesis
      by (simp add: unterminated.simps [of s])
  qed
qed

lemma lines_append:
  "completeLines (a @ b) = completeLines a @ completeLines (unterminated a @ b) \<and>
   unterminated (a @ b) = unterminated (unterminated a @ b)"
proof (induction a rule: completeLines.induct)
  case (1 s)
  show ?case
  proof (cases "indexOf s newline")
    case None
    then show ?thesis
      by (simp add: completeLines.simps [of s] unterminated.simps [of s])
  next
    case (Some i)
    then have i: "i < length s" by (rule indexOf_less)
    from Some have ab: "indexOf (s @ b) newline = Some i"
      by (simp add: indexOf_append)
    from i have "take i (s @ b) = take i s" "drop (Suc i) (s @ b) = drop (Suc i) s @ b"
      by simp_all
    with Some ab "1.IH" [OF Some] show ?thesis
      by (simp add: completeLines.simps [of s] completeLines.simps [of "s @ b"]
            unterminated.simps [of s] unterminated.simps [of "s @ b"])
  qed
qed

lemma completeLines_append:
  "completeLines (a @ b) = completeLines a @ completeLines (unterminated a @ b)"
  using lines_append by blast

lemma unterminated_append: "unterminated (a @ b) = unterminated (unterminated a @ b)"
  using lines_append by blast

lemma completeLines_unterminated:
  assumes "newline \<notin> set final"
  shows "completeLines (terminated @ final) = completeLines terminated"
proof -
  have "newline \<notin> set (unterminated terminated @ final)"
    using assms by (simp add: unterminated_newline_free)
  then show ?thesis
    by (simp add: completeLines_append [of terminated final] completeLines_no_newline)
qed

lemma drain_browser_lines:
  "drain_browser parse st =
     withBuffer (unterminated (buffer st)) (runLines parse st (completeLines (buffer st)))"
proof (induction parse st rule: drain_browser.induct)
  case (1 parse st)
  show ?case
  proof (cases "indexOf (buffer st) newline")
    case None
    then show ?thesis
      by (simp add: drain_browser.simps [of parse st] completeLines.simps [of "buffer st"]
            unterminated.simps [of "buffer st"])
  next
    case (Some i)
    let ?rest = "drop (Suc i) (buffer st)"
    let ?line = "take i (buffer st)"
    show ?thesis
    proof (cases "lineBody parse st ?line")
      case (Inl e)
      with Some show ?thesis
        by (simp add: drain_browser.simps [of parse st] completeLines.simps [of "buffer st"]
              unterminated.simps [of "buffer st"] lineBody_withBuffer)
    next
      case (Inr st1)
      then have step: "lineBody parse (st\<lparr>buffer := ?rest\<rparr>) ?line = Inr (st1\<lparr>buffer := ?rest\<rparr>)"
        by (simp add: lineBody_withBuffer)
      have "drain_browser parse (st1\<lparr>buffer := ?rest\<rparr>) =
            withBuffer (unterminated ?rest) (runLines parse (st1\<lparr>buffer := ?rest\<rparr>) (completeLines ?rest))"
        using "1.IH" [OF Some step] by simp
      with Some Inr step show ?thesis
        by (simp add: drain_browser.simps [of parse st] completeLines.simps [of "buffer st"]
              unterminated.simps [of "buffer st"] runLines_withBuffer)
    qed
  qed
qed

lemma drain_node_lines:
  "drain_node parse st =
     withBuffer (unterminated (buffer st)) (runLines parse st (completeLines (buffer st)))"
proof (induction parse st rule: drain_node.induct)
  case (1 parse st)
  show ?case
  proof (cases "indexOf (buffer st) newline")
    case None
    then show ?thesis
      by (simp add: drain_node.simps [of parse st] completeLines.simps [of "buffer st"]
            unterminated.simps [of "buffer st"])
  next
    case (Some i)
    let ?rest = "drop (Suc i) (buffer st)"
    let ?line = "take i (buffer st)"
    show ?thesis
    proof (cases "lineBody parse st ?line")
      case (Inl e)
      with Some show ?thesis
        by (simp add: drain_node.simps [of parse st] completeLines.simps [of "buffer st"]
              unterminated.simps [of "buffer st"] lineBody_withBuffer)
    next
      case (Inr st1)
      then have step: "lineBody parse (st\<lparr>buffer := ?rest\<rparr>) ?line = Inr (st1\<lparr>buffer := ?rest\<rparr>)"
        by (simp add: lineBody_withBuffer)
      have "drain_node parse (st1\<lparr>buffer := ?rest\<rparr>) =
            withBuffer (unterminated ?rest) (runLines parse (st1\<lparr>buffer := ?rest\<rparr>) (completeLines ?rest))"
        using "1.IH" [OF Some step] by simp
      with Some Inr step show ?thesis
        by (simp add: drain_node.simps [of parse st] completeLines.simps [of "buffer st"]
              unterminated.simps [of "buffer st"] runLines_withBuffer)
    qed
  qed
qed

lemma readLoop_browser_lines:
  "newline \<notin> set (buffer st) \<Longrightarrow>
   readLoop_browser parse st chunks =
     withBuffer (unterminated (buffer st @ concat chunks))
       (runLines parse st (completeLines (buffer st @ concat chunks)))"
proof (induction chunks arbitrary: st)
  case Nil
  then show ?case
    by (simp add: completeLines_no_newline unterminated_no_newline)
next
  case (Cons chunk chunks)
  let ?b = "buffer st @ chunk"
  have cl: "completeLines (buffer st @ chunk @ concat chunks) =
            completeLines ?b @ completeLines (unterminated ?b @ concat chunks)"
    using completeLines_append [of ?b "concat chunks"] by simp
  have un: "unterminated (buffer st @ chunk @ concat chunks) =
            unterminated (unterminated ?b @ concat chunks)"
    using unterminated_append [of ?b "concat chunks"] by simp
  show ?case
  proof (cases "runLines parse st (completeLines ?b)")
    case (Inl e)
    then show ?thesis
      by (simp add: drain_browser_lines runLines_withBuffer cl runLines_append)
  next
    case (Inr st1)
    from Inr show ?thesis
      using Cons.IH [of "st1\<lparr>buffer := unterminated ?b\<rparr>"]
      by (simp add: drain_browser_lines runLines_withBuffer unterminated_newline_free
            cl un runLines_append)
  qed
qed

lemma dataEvents_node_lines:
  "newline \<notin> set (buffer st) \<Longrightarrow>
   dataEvents_node parse st chunks =
     withBuffer (unterminated (buffer st @ concat (map toStringBuffer chunks)))
       (runLines parse st (completeLines (buffer st @ concat (map toStringBuffer chunks))))"
proof (induction chunks arbitrary: st)
  case Nil
  then show ?case
    by (simp add: completeLines_no_newline unterminated_no_newline)
next
  case (Cons chunk chunks)
  let ?b = "buffer st @ toStringBuffer chunk"
  let ?rest = "concat (map toStringBuffer chunks)"
  have cl: "completeLines (buffer st @ toStringBuffer chunk @ ?rest) =
            completeLines ?b @ completeLines (unterminated ?b @ ?rest)"
    using completeLines_append [of ?b ?rest] by simp
  have un: "unterminated (buffer st @ toStringBuffer chunk @ ?rest) =
            unterminated (unterminated ?b @ ?rest)"
    using unterminated_append [of ?b ?rest] by simp
  show ?case
  proof (cases "runLines parse st (completeLines ?b)")
    case (Inl e)
    then show ?thesis
      by (simp add: onData_node_def drain_node_lines runLines_withBuffer cl runLines_append)
  next
    case (Inr st1)
    from Inr show ?thesis
      using Cons.IH [of "st1\<lparr>buffer := unterminated ?b\<rparr>"]
      by (simp add: onData_node_def drain_node_lines runLines_withBuffer unterminated_newline_free
            cl un runLines_append)
  qed
qed

lemma scanBuffer_browser_lines:
  "scanBuffer_browser parse targetLine (currentLine, lineBuffer) =
     (if currentLine < targetLine \<and> targetLine \<le> currentLine + length (completeLines lineBuffer)
      then Inl (lineValue parse (completeLines lineBuffer ! (targetLine - Suc currentLine)))
      else Inr (currentLine + length (completeLines lineBuffer), unterminated lineBuffer))"
proof (induction parse targetLine "(currentLine, lineBuffer)" arbitrary: currentLine lineBuffer
    rule: scanBuffer_browser.induct)
  case (1 parse targetLine currentLine lineBuffer)
  show ?case
  proof (cases "indexOf lineBuffer newline")
    case None
    then show ?thesis
      by (simp add: scanBuffer_browser.simps [of parse targetLine currentLine lineBuffer]
            completeLines.simps [of lineBuffer] unterminated.simps [of lineBuffer])
  next
    case (Some i)
    show ?thesis
    proof (cases "Suc currentLine = targetLine")
      case True
      with Some show ?thesis
        by (auto simp: scanBuffer_browser.simps [of parse targetLine currentLine lineBuffer]
              completeLines.simps [of lineBuffer] lineValue_def)
    next
      case False
      have nth: "(take i lineBuffer # ls) ! (targetLine - Suc currentLine) =
                   ls ! (targetLine - Suc (Suc currentLine))"
        if "currentLine < targetLine" for ls
      proof -
        from that False have "targetLine - Suc currentLine = Suc (targetLine - Suc (Suc currentLine))"
          by arith
        then show ?thesis by simp
      qed
      from Some False "1.hyps" [OF Some False] show ?thesis
        by (auto simp: scanBuffer_browser.simps [of parse targetLine currentLine lineBuffer]
              completeLines.simps [of lineBuffer] unterminated.simps [of lineBuffer] nth)
    qed
  qed
qed

lemma scanChunks_browser_lines:
  "newline \<notin> set lineBuffer \<Longrightarrow>
   scanChunks_browser parse targetLine (currentLine, lineBuffer) chunks =
     (if currentLine < targetLine \<and>
         targetLine \<le> currentLine + length (completeLines (lineBuffer @ concat chunks))
      then lineValue parse (completeLines (lineBuffer @ concat chunks) ! (targetLine - Suc currentLine))
      else JNull)"
proof (induction chunks arbitrary: currentLine lineBuffer)
  case Nil
  then show ?case
    by (auto simp: completeLines_no_newline)
next
  case (Cons chunk chunks)
  let ?b = "lineBuffer @ chunk"
  have cl: "completeLines (lineBuffer @ chunk @ concat chunks) =
            completeLines ?b @ completeLines (unterminated ?b @ concat chunks)"
    using completeLines_append [of ?b "concat chunks"] by simp
  show ?case
    using Cons.IH [of "unterminated ?b" "currentLine + length (completeLines ?b)"]
    by (auto simp: scanBuffer_browser_lines cl unterminated_newline_free nth_append)
qed

section \<open>The map is made from the entry lines\<close>

lemma all_dropWhile: "(\<forall>x\<in>set (dropWhile P s). P x) \<longleftrightarrow> (\<forall>x\<in>set s. P x)"
  by (induction s) auto

lemma isBlank_iff: "isBlank l \<longleftrightarrow> (\<forall>c\<in>set l. isWhiteSpace c)"
  by (simp add: isBlank_def trim_def dropWhile_eq_Nil_conv all_dropWhile)

lemma startsWith_set: "startsWith s p \<Longrightarrow> set p \<subseteq> set s"
  by (induction s p rule: startsWith.induct) auto

lemma includesStr_set: "includesStr s p \<Longrightarrow> set p \<subseteq> set s"
proof (induction s p rule: includesStr.induct)
  case (1 p)
  then show ?case by simp
next
  case (2 c cs p)
  then show ?case
    using startsWith_set [of "c # cs" p] by auto
qed

lemma delimiter_not_blank: "includesStr l delimiter \<Longrightarrow> \<not> isBlank l"
proof
  assume "includesStr l delimiter" and "isBlank l"
  then have "\<forall>c\<in>set delimiter. isWhiteSpace c"
    using includesStr_set [of l delimiter] by (auto simp: isBlank_iff)
  then have "isWhiteSpace 102"
    by (simp add: delimiter_def lit_def)
  then show False
    by (simp add: isWhiteSpace_def)
qed

lemma afterDelimiter_Cons:
  "afterDelimiter (l # ls) = (if includesStr l delimiter then ls else afterDelimiter ls)"
  by (simp add: afterDelimiter_def)

lemma afterDelimiter_Nil [simp]: "afterDelimiter [] = []"
  by (simp add: afterDelimiter_def)

lemma runLines_entries:
  "map_sum id schemas (runLines parse st ls) =
     considerAll parse (schemas st)
       (filter isEntryLine (if pastDelimiter st then ls else afterDelimiter ls))"
proof (induction ls arbitrary: st)
  case Nil
  show ?case by simp
next
  case (Cons l ls)
  consider (blank) "isBlank l" | (delim) "includesStr l delimiter"
    | (entry) "isEntryLine l"
    by (auto simp: isEntryLine_def)
  then show ?case
  proof cases
    case blank
    then have nd: "\<not> includesStr l delimiter" using delimiter_not_blank by blast
    from blank nd show ?thesis
      using Cons.IH [of st]
      by (simp add: lineBody_def isEntryLine_def afterDelimiter_Cons)
  next
    case delim
    then have nb: "\<not> isBlank l" by (rule delimiter_not_blank)
    from delim nb show ?thesis
      using Cons.IH [of "st\<lparr>pastDelimiter := True\<rparr>"]
      by (simp add: lineBody_def isEntryLine_def afterDelimiter_Cons)
  next
    case entry
    then have nb: "\<not> isBlank l" and nd: "\<not> includesStr l delimiter"
      by (simp_all add: isEntryLine_def)
    show ?thesis
    proof (cases "pastDelimiter st")
      case False
      with nb nd entry show ?thesis
        using Cons.IH [of st]
        by (simp add: lineBody_def afterDelimiter_Cons)
    next
      case True
      show ?thesis
      proof (cases "parse l")
        case None
        with True nb nd entry show ?thesis
          by (simp add: lineBody_def)
      next
        case (Some v)
        show ?thesis
        proof (cases "considerEntry (schemas st) v")
          case (Inl e)
          with Some True nb nd entry show ?thesis
            by (simp add: lineBody_def)
        next
          case (Inr m)
          with Some True nb nd entry show ?thesis
            using Cons.IH [of "st\<lparr>schemas := m\<rparr>"]
            by (simp add: lineBody_def)
        qed
      qed
    qed
  qed
qed

lemma readLoop_browser_schemas:
  "map_sum id schemas (readLoop_browser parse initialState chunks) =
     considerAll parse Map.empty (entryLines (concat chunks))"
proof -
  have "map_sum id schemas (withBuffer b r) = map_sum id schemas r" for b r
    by (cases r) simp_all
  then show ?thesis
    using readLoop_browser_lines [of initialState parse chunks]
      runLines_entries [of parse initialState "completeLines (concat chunks)"]
    by (simp add: initialState_def entryLines_def)
qed

lemma dataEvents_node_schemas:
  "map_sum id schemas (dataEvents_node parse initialState chunks) =
     considerAll parse Map.empty (entryLines (concat (map toStringBuffer chunks)))"
proof -
  have "map_sum id schemas (withBuffer b r) = map_sum id schemas r" for b r
    by (cases r) simp_all
  then show ?thesis
    using dataEvents_node_lines [of initialState parse chunks]
      runLines_entries [of parse initialState
        "completeLines (concat (map toStringBuffer chunks))"]
    by (simp add: initialState_def entryLines_def)
qed

lemma loadPackageSchemas_browser_entries:
  "loadPackageSchemas_browser parse (Response r) =
     (if \<not> ok r then Fulfilled Map.empty
      else if bodyIsNull r then Rejected (Threw TypeError)
      else (case considerAll parse Map.empty (entryLines (text_browser r)) of
              Inl e \<Rightarrow> Rejected (Threw e)
            | Inr m \<Rightarrow> if bodyFails r then Rejected StreamFailed else Fulfilled m))"
  using readLoop_browser_schemas
    [of parse "textDecoderStream initialDecoder False (body r)", symmetric]
  by (cases "readLoop_browser parse initialState
               (textDecoderStream initialDecoder False (body r))")
    (auto simp: loadPackageSchemas_browser_def text_browser_def)

lemma loadPackageSchemas_node_entries:
  "loadPackageSchemas_node parse (Response r) =
     (if status r \<noteq> 200 then Rejected NotFetched
      else (case considerAll parse Map.empty (entryLines (text_node r)) of
              Inl e \<Rightarrow> Uncaught e
            | Inr m \<Rightarrow> if bodyFails r then Rejected StreamFailed else Fulfilled m))"
  using dataEvents_node_schemas [of parse "body r", symmetric]
  by (cases "dataEvents_node parse initialState (body r)")
    (auto simp: loadPackageSchemas_node_def text_node_def)

lemma entryLines_unterminated:
  assumes "newline \<notin> set final"
  shows "entryLines (terminated @ final) = entryLines terminated"
proof -
  have "newline \<notin> set (unterminated terminated @ final)"
    using assms by (simp add: unterminated_newline_free)
  then have "completeLines (terminated @ final) = completeLines terminated"
    by (simp add: completeLines_append [of terminated final] completeLines_no_newline)
  then show ?thesis
    by (simp add: entryLines_def)
qed

lemma storeUnder_converts:
  "keyConverts v p \<Longrightarrow> \<exists>m'. storeUnder p v m = Inr m'"
  by (auto simp: keyConverts_def storeUnder_def setProp_def split: option.splits)

lemma considerEntry_converts:
  assumes "v \<noteq> JNull" and "keyConverts v (lit ''name'')" and "keyConverts v (lit ''url'')"
  shows "\<exists>m'. considerEntry m v = Inr m'"
proof -
  obtain m1 where m1: "storeUnder (lit ''name'') v m = Inr m1"
    using storeUnder_converts [OF assms(2)] by blast
  obtain m2 where "storeUnder (lit ''url'') v m1 = Inr m2"
    using storeUnder_converts [OF assms(3)] by blast
  with m1 assms(1) show ?thesis
    by (simp add: considerEntry_def)
qed

lemma considerAll_converts:
  assumes "\<forall>l\<in>set ls. \<exists>v. parse l = Some v \<and> v \<noteq> JNull \<and>
             keyConverts v (lit ''name'') \<and> keyConverts v (lit ''url'')"
  shows "\<exists>m'. considerAll parse m ls = Inr m'"
  using assms
proof (induction ls arbitrary: m)
  case Nil
  show ?case by simp
next
  case (Cons l ls)
  then obtain v where v: "parse l = Some v" "v \<noteq> JNull"
    "keyConverts v (lit ''name'')" "keyConverts v (lit ''url'')"
    by auto
  then obtain m1 where "considerEntry m v = Inr m1"
    using considerEntry_converts by blast
  with v(1) Cons show ?case
    by simp
qed

lemma storeUnder_lookup:
  assumes "storeUnder p v m = Inr m'"
  shows "m' k = (if k \<noteq> lit ''__proto__'' \<and> keyUnder p v = Some k then Some v else m k)"
  using assms
  by (auto simp: storeUnder_def setProp_def keyUnder_def split: option.splits if_splits)

lemma considerEntry_lookup:
  assumes "considerEntry m v = Inr m'"
  shows "m' k = (if k \<noteq> lit ''__proto__'' \<and> retained v \<and> List.member (entryKeys v) k
                 then Some v else m k)"
proof (cases "retained v")
  case False
  with assms show ?thesis
    by (auto simp: considerEntry_def retained_def split: if_splits)
next
  case True
  with assms obtain m1 where m1: "storeUnder (lit ''name'') v m = Inr m1"
    and m': "storeUnder (lit ''url'') v m1 = Inr m'"
    by (auto simp: considerEntry_def retained_def split: if_splits sum.splits)
  have keys: "List.member (entryKeys v) k \<longleftrightarrow>
                keyUnder (lit ''name'') v = Some k \<or> keyUnder (lit ''url'') v = Some k"
    by (auto simp: entryKeys_def List.map_filter_def)
  show ?thesis
    using True storeUnder_lookup [OF m1, of k] storeUnder_lookup [OF m', of k] keys
    by auto
qed

lemma lastRetained_Cons:
  "lastRetained k (v # vs) =
     (case lastRetained k vs of
        Some w \<Rightarrow> Some w
      | None \<Rightarrow> if retained v \<and> List.member (entryKeys v) k then Some v else None)"
  by (auto simp: lastRetained_def split: list.splits)

lemma considerAll_lookup:
  assumes "considerAll parse m0 ls = Inr m"
  shows "m (lit ''__proto__'') = m0 (lit ''__proto__'') \<and>
         (k \<noteq> lit ''__proto__'' \<longrightarrow>
            m k = (case lastRetained k (List.map_filter parse ls) of
                     None \<Rightarrow> m0 k
                   | Some v \<Rightarrow> Some v))"
  using assms
proof (induction ls arbitrary: m0)
  case Nil
  then show ?case
    by (simp add: lastRetained_def List.map_filter_def)
next
  case (Cons l ls)
  then obtain v m1 where v: "parse l = Some v" and m1: "considerEntry m0 v = Inr m1"
    and rest: "considerAll parse m1 ls = Inr m"
    by (auto split: option.splits sum.splits)
  have mf: "List.map_filter parse (l # ls) = v # List.map_filter parse ls"
    using v by (simp add: List.map_filter_def)
  show ?case
  proof (cases "lastRetained k (List.map_filter parse ls)")
    case None
    then show ?thesis
      using Cons.IH [OF rest] considerEntry_lookup [OF m1, of k]
        considerEntry_lookup [OF m1, of "lit ''__proto__''"]
      by (simp add: v lastRetained_Cons)
  next
    case (Some w)
    then show ?thesis
      using Cons.IH [OF rest] considerEntry_lookup [OF m1, of "lit ''__proto__''"]
      by (simp add: v lastRetained_Cons)
  qed
qed



lemma loadPackageSchemas_browser_proto:
  "loadPackageSchemas_browser parse f = Fulfilled m \<Longrightarrow> m (lit ''__proto__'') = None"
proof (cases f)
  case NetworkError
  then show "loadPackageSchemas_browser parse f = Fulfilled m \<Longrightarrow> m (lit ''__proto__'') = None"
    by (simp add: loadPackageSchemas_browser_def)
next
  case (Response r)
  assume "loadPackageSchemas_browser parse f = Fulfilled m"
  with Response have "m = Map.empty \<or>
      considerAll parse Map.empty (entryLines (text_browser r)) = Inr m"
    by (auto simp: loadPackageSchemas_browser_entries split: if_splits sum.splits)
  then show "m (lit ''__proto__'') = None"
    using considerAll_lookup [of parse Map.empty _ m "lit ''__proto__''"] by auto
qed

lemma loadPackageSchemas_node_proto:
  "loadPackageSchemas_node parse f = Fulfilled m \<Longrightarrow> m (lit ''__proto__'') = None"
proof (cases f)
  case NetworkError
  then show "loadPackageSchemas_node parse f = Fulfilled m \<Longrightarrow> m (lit ''__proto__'') = None"
    by (simp add: loadPackageSchemas_node_def)
next
  case (Response r)
  assume "loadPackageSchemas_node parse f = Fulfilled m"
  with Response have "considerAll parse Map.empty (entryLines (text_node r)) = Inr m"
    by (auto simp: loadPackageSchemas_node_entries split: if_splits sum.splits)
  then show "m (lit ''__proto__'') = None"
    using considerAll_lookup [of parse Map.empty _ m "lit ''__proto__''"] by auto
qed
section \<open>Decoding keeps the lines\<close>


lemma wellFormed_initial [simp]: "wellFormed initialDecoder"
  by (simp add: wellFormed_def initialDecoder_def)

lemma startSequence_wellFormed: "wellFormed (fst (startSequence b))"
  by (auto simp: startSequence_def wellFormed_def initialDecoder_def)

lemma startSequence_newline: "startSequence 10 = (initialDecoder, [10])"
  by (simp add: startSequence_def)

lemma startSequence_no_newline: "b \<noteq> 10 \<Longrightarrow> 10 \<notin> set (snd (startSequence b))"
  by (simp add: startSequence_def)

lemma decodeByte_wellFormed: "wellFormed d \<Longrightarrow> wellFormed (fst (decodeByte d b))"
  using startSequence_wellFormed [of b]
  by (auto simp: decodeByte_def wellFormed_def Let_def initialDecoder_def split: prod.splits)

lemma decodeByte_newline:
  "wellFormed d \<Longrightarrow> decodeByte d 10 = (initialDecoder, endOfQueue d @ [10])"
  by (auto simp: decodeByte_def wellFormed_def startSequence_newline endOfQueue_def)

lemma decodeByte_no_newline:
  "wellFormed d \<Longrightarrow> b \<noteq> 10 \<Longrightarrow> 10 \<notin> set (snd (decodeByte d b))"
  using startSequence_no_newline [of b]
  by (auto simp: decodeByte_def wellFormed_def Let_def split: prod.splits)

lemma of_char_lineFeed: "of_char b = (10 :: nat) \<longleftrightarrow> b = lineFeed"
proof -
  have "of_char lineFeed = (10 :: nat)"
    by (simp add: lineFeed_def)
  then show ?thesis
    by (metis of_char_eq_iff)
qed

lemma decodeBytes_append:
  "decodeBytes d (a @ b) =
     (case decodeBytes d a of
        (d1, o1) \<Rightarrow> (case decodeBytes d1 b of (d2, o2) \<Rightarrow> (d2, o1 @ o2)))"
  by (induction a arbitrary: d) (auto split: prod.splits)

lemma decodeBytes_wellFormed: "wellFormed d \<Longrightarrow> wellFormed (fst (decodeBytes d bs))"
proof (induction bs arbitrary: d)
  case Nil
  then show ?case by simp
next
  case (Cons b bs)
  obtain d1 out where d1: "decodeByte d (of_char b) = (d1, out)"
    by (cases "decodeByte d (of_char b)")
  then have "wellFormed d1"
    using decodeByte_wellFormed [OF Cons.prems, of "of_char b"] by simp
  then have "wellFormed (fst (decodeBytes d1 bs))"
    by (rule Cons.IH)
  with d1 show ?case
    by (auto split: prod.splits)
qed

lemma decodeBytes_no_newline:
  "wellFormed d \<Longrightarrow> lineFeed \<notin> set bs \<Longrightarrow> 10 \<notin> set (snd (decodeBytes d bs))"
proof (induction bs arbitrary: d)
  case Nil
  then show ?case by simp
next
  case (Cons b bs)
  obtain d1 out where d1: "decodeByte d (of_char b) = (d1, out)"
    by (cases "decodeByte d (of_char b)")
  from Cons.prems have "b \<noteq> lineFeed"
    by auto
  then have b: "of_char b \<noteq> (10 :: nat)"
    by (simp add: of_char_lineFeed)
  have "wellFormed d1" "10 \<notin> set out"
    using decodeByte_wellFormed [OF Cons.prems(1), of "of_char b"]
      decodeByte_no_newline [OF Cons.prems(1) b] d1
    by simp_all
  moreover from Cons.prems(2) have "lineFeed \<notin> set bs"
    by simp
  ultimately have "10 \<notin> set (snd (decodeBytes d1 bs))"
    using Cons.IH [of d1] by simp
  with d1 \<open>10 \<notin> set out\<close> show ?case
    by (auto split: prod.splits)
qed

lemma decodeAll_no_newline:
  "wellFormed d \<Longrightarrow> lineFeed \<notin> set bs \<Longrightarrow> 10 \<notin> set (decodeAll d bs)"
proof -
  assume "wellFormed d" and "lineFeed \<notin> set bs"
  then have "10 \<notin> set (snd (decodeBytes d bs))"
    by (rule decodeBytes_no_newline)
  then show ?thesis
    by (cases "decodeBytes d bs") (simp add: decodeAll_def endOfQueue_def)
qed

lemma decodeAll_lineFeed:
  assumes "wellFormed d"
  shows "decodeAll d (a @ lineFeed # b) = decodeAll d a @ 10 # decodeAll initialDecoder b"
proof -
  obtain d1 o1 where a: "decodeBytes d a = (d1, o1)"
    by (cases "decodeBytes d a")
  then have "wellFormed d1"
    using decodeBytes_wellFormed [OF assms, of a] by simp
  then have "decodeByte d1 (of_char lineFeed) = (initialDecoder, endOfQueue d1 @ [10])"
    using decodeByte_newline [of d1] by (simp add: lineFeed_def)
  with a show ?thesis
    by (simp add: decodeAll_def decodeBytes_append split: prod.splits)
qed

lemma decodeAll_lines:
  assumes "wellFormed d" and "lineFeed \<notin> set y"
  shows "\<exists>s r1 r2. decodeAll d (x @ y) = s @ r1 \<and> decodeAll d x = s @ r2 \<and>
           10 \<notin> set r1 \<and> 10 \<notin> set r2"
proof (cases "lineFeed \<in> set x")
  case False
  then have "10 \<notin> set (decodeAll d (x @ y))" "10 \<notin> set (decodeAll d x)"
    using assms decodeAll_no_newline [of d "x @ y"] decodeAll_no_newline [of d x] by simp_all
  then have "decodeAll d (x @ y) = [] @ decodeAll d (x @ y) \<and> decodeAll d x = [] @ decodeAll d x \<and>
             10 \<notin> set (decodeAll d (x @ y)) \<and> 10 \<notin> set (decodeAll d x)"
    by simp
  then show ?thesis
    by blast
next
  case True
  then obtain a b where x: "x = a @ lineFeed # b" and b: "lineFeed \<notin> set b"
    using split_list_last [of lineFeed x] by blast
  have "decodeAll d (x @ y) = (decodeAll d a @ [10]) @ decodeAll initialDecoder (b @ y)"
    "decodeAll d x = (decodeAll d a @ [10]) @ decodeAll initialDecoder b"
    using decodeAll_lineFeed [OF assms(1), of a "b @ y"] decodeAll_lineFeed [OF assms(1), of a b] x
    by simp_all
  moreover have "10 \<notin> set (decodeAll initialDecoder (b @ y))" "10 \<notin> set (decodeAll initialDecoder b)"
    using b assms(2) decodeAll_no_newline [of initialDecoder] by simp_all
  ultimately show ?thesis
    by blast
qed

lemma toUnits_append [simp]: "toUnits (a @ b) = toUnits a @ toUnits b"
  by (simp add: toUnits_def)

lemma toUnits_newline: "newline \<in> set (toUnits cps) \<longleftrightarrow> 10 \<in> set cps"
proof -
  have "newline \<in> set (codeUnits cp) \<longleftrightarrow> cp = 10" for cp
    by (auto simp: codeUnits_def newline_def)
  then show ?thesis
    by (auto simp: toUnits_def)
qed

lemma toStringBuffer_decodeAll: "toStringBuffer chunk = toUnits (decodeAll initialDecoder chunk)"
  by (simp add: toStringBuffer_def decodeAll_def split: prod.splits)

lemma toStringBuffer_lines:
  assumes "lineFeed \<notin> set y"
  shows "\<exists>s r1 r2. toStringBuffer (x @ y) = s @ r1 \<and> toStringBuffer x = s @ r2 \<and>
           newline \<notin> set r1 \<and> newline \<notin> set r2"
proof -
  obtain s r1 r2 where "decodeAll initialDecoder (x @ y) = s @ r1"
    "decodeAll initialDecoder x = s @ r2" "10 \<notin> set r1" "10 \<notin> set r2"
    using decodeAll_lines [OF wellFormed_initial assms, of x] by blast
  then have "toStringBuffer (x @ y) = toUnits s @ toUnits r1 \<and>
             toStringBuffer x = toUnits s @ toUnits r2 \<and>
             newline \<notin> set (toUnits r1) \<and> newline \<notin> set (toUnits r2)"
    by (simp add: toStringBuffer_decodeAll toUnits_newline)
  then show ?thesis
    by blast
qed

lemma toStringBuffer_no_newline:
  "lineFeed \<notin> set (concat chunks) \<Longrightarrow> newline \<notin> set (concat (map toStringBuffer chunks))"
  using decodeAll_no_newline [OF wellFormed_initial]
  by (auto simp: toStringBuffer_decodeAll toUnits_newline)


lemma serialize_stripBOM: "snd (serialize False cps) = stripBOM cps"
  by (simp add: serialize_def stripBOM_def split: list.splits)

lemma serialize_append:
  "serialize seen (a @ b) =
     (case serialize seen a of
        (s1, a') \<Rightarrow> (case serialize s1 b of (s2, b') \<Rightarrow> (s2, a' @ b')))"
  by (cases a) (auto simp: serialize_def split: list.splits)

lemma concat_enqueue [simp]: "concat (enqueue s q) = s @ concat q"
  by (simp add: enqueue_def)

lemma decodeAll_append:
  "decodeAll d (a @ b) =
     (case decodeBytes d a of (d1, o1) \<Rightarrow> o1 @ decodeAll d1 b)"
  by (simp add: decodeAll_def decodeBytes_append split: prod.splits)

lemma textDecoderStream_concat:
  "concat (textDecoderStream d seen chunks) =
     toUnits (snd (serialize seen (decodeAll d (concat chunks))))"
proof (induction chunks arbitrary: d seen)
  case Nil
  show ?case
    by (simp add: decodeAll_def split: prod.splits)
next
  case (Cons chunk chunks)
  obtain d1 o1 where d1: "decodeBytes d chunk = (d1, o1)"
    by (cases "decodeBytes d chunk")
  obtain s1 o1' where s1: "serialize seen o1 = (s1, o1')"
    by (cases "serialize seen o1")
  show ?case
    using Cons.IH [of d1 s1] d1 s1
    by (simp add: decodeAll_append serialize_append split: prod.splits)
qed

lemma text_browser_streamText: "text_browser r = streamText (concat (body r))"
  by (simp add: text_browser_def streamText_def textDecoderStream_concat serialize_stripBOM)

lemma text_node_single: "text_node (r\<lparr>body := [bs]\<rparr>) = toStringBuffer bs"
  by (simp add: text_node_def)

lemma stripBOM_append:
  "stripBOM (s @ r) = (if s = [] then stripBOM r else stripBOM s @ r)"
  by (cases s) (simp_all add: stripBOM_def)

lemma stripBOM_no_newline: "10 \<notin> set r \<Longrightarrow> 10 \<notin> set (stripBOM r)"
  by (cases r) (simp_all add: stripBOM_def)

lemma streamText_lines:
  assumes "lineFeed \<notin> set y"
  shows "\<exists>s r1 r2. streamText (x @ y) = s @ r1 \<and> streamText x = s @ r2 \<and>
           newline \<notin> set r1 \<and> newline \<notin> set r2"
proof -
  obtain s r1 r2 where d: "decodeAll initialDecoder (x @ y) = s @ r1"
    "decodeAll initialDecoder x = s @ r2" "10 \<notin> set r1" "10 \<notin> set r2"
    using decodeAll_lines [OF wellFormed_initial assms, of x] by blast
  show ?thesis
  proof (cases "s = []")
    case True
    with d have "streamText (x @ y) = [] @ toUnits (stripBOM r1) \<and>
                 streamText x = [] @ toUnits (stripBOM r2) \<and>
                 newline \<notin> set (toUnits (stripBOM r1)) \<and> newline \<notin> set (toUnits (stripBOM r2))"
      by (simp add: streamText_def toUnits_newline stripBOM_no_newline)
    then show ?thesis by blast
  next
    case False
    with d have "streamText (x @ y) = toUnits (stripBOM s) @ toUnits r1 \<and>
                 streamText x = toUnits (stripBOM s) @ toUnits r2 \<and>
                 newline \<notin> set (toUnits r1) \<and> newline \<notin> set (toUnits r2)"
      by (simp add: streamText_def toUnits_newline stripBOM_append)
    then show ?thesis by blast
  qed
qed

lemma completeLines_same:
  assumes "u = s @ r1" and "v = s @ r2" and "newline \<notin> set r1" and "newline \<notin> set r2"
    and "newline \<notin> set q"
  shows "completeLines (p @ u @ q) = completeLines (p @ v)"
proof -
  have "completeLines ((p @ s) @ (r1 @ q)) = completeLines (p @ s)"
    using assms(3,5) by (intro completeLines_unterminated) simp
  moreover have "completeLines ((p @ s) @ r2) = completeLines (p @ s)"
    using assms(4) by (intro completeLines_unterminated) simp
  ultimately show ?thesis
    using assms(1,2) by simp
qed

lemma streamText_unterminated:
  assumes "lineFeed \<notin> set final"
  shows "completeLines (streamText (terminated @ final)) = completeLines (streamText terminated)"
proof -
  obtain s r1 r2 where "streamText (terminated @ final) = s @ r1" "streamText terminated = s @ r2"
    "newline \<notin> set r1" "newline \<notin> set r2"
    using streamText_lines [OF assms, of terminated] by blast
  then show ?thesis
    using completeLines_same [of _ s r1 _ r2 "[]" "[]"] by simp
qed

lemma toStringBuffer_unterminated:
  assumes "lineFeed \<notin> set final"
  shows "completeLines (toStringBuffer (terminated @ final)) =
         completeLines (toStringBuffer terminated)"
proof -
  obtain s r1 r2 where "toStringBuffer (terminated @ final) = s @ r1"
    "toStringBuffer terminated = s @ r2" "newline \<notin> set r1" "newline \<notin> set r2"
    using toStringBuffer_lines [OF assms, of terminated] by blast
  then show ?thesis
    using completeLines_same [of _ s r1 _ r2 "[]" "[]"] by simp
qed

lemma takeBytes_lines:
  "lineFeed \<notin> set (drop n (concat chunks)) \<Longrightarrow>
   completeLines (p @ concat (map toStringBuffer chunks)) =
     completeLines (p @ concat (map toStringBuffer (takeBytes n chunks)))"
proof (induction chunks arbitrary: n p)
  case Nil
  show ?case by simp
next
  case (Cons chunk chunks)
  show ?case
  proof (cases "n \<le> length chunk")
    case True
    with Cons.prems have y: "lineFeed \<notin> set (drop n chunk)"
      and rest: "lineFeed \<notin> set (concat chunks)"
      by simp_all
    obtain s r1 r2 where "toStringBuffer (take n chunk @ drop n chunk) = s @ r1"
      "toStringBuffer (take n chunk) = s @ r2" "newline \<notin> set r1" "newline \<notin> set r2"
      using toStringBuffer_lines [OF y, of "take n chunk"] by blast
    then have "completeLines (p @ toStringBuffer chunk @ concat (map toStringBuffer chunks)) =
               completeLines (p @ toStringBuffer (take n chunk))"
      using completeLines_same [of "toStringBuffer chunk" s r1 "toStringBuffer (take n chunk)" r2
          "concat (map toStringBuffer chunks)" p]
        toStringBuffer_no_newline [OF rest]
      by simp
    with True show ?thesis
      by simp
  next
    case False
    with Cons.prems have "lineFeed \<notin> set (drop (n - length chunk) (concat chunks))"
      by simp
    then show ?thesis
      using Cons.IH [of "n - length chunk" "p @ toStringBuffer chunk"] False
      by simp
  qed
qed

lemma completeLines_Cons:
  "c \<noteq> newline \<Longrightarrow>
   completeLines (c # t) =
     (case completeLines t of [] \<Rightarrow> [] | l # ls \<Rightarrow> (c # l) # ls)"
  by (cases "indexOf t newline")
    (simp_all add: completeLines.simps [of "c # t"] completeLines.simps [of t])

lemma entryLines_byteOrderMark: "entryLines (0xFEFF # t) = entryLines t"
proof -
  have n: "(0xFEFF :: nat) \<noteq> newline"
    by (simp add: newline_def)
  have "includesStr (0xFEFF # l) delimiter = includesStr l delimiter" for l
    by (simp add: delimiter_def lit_def)
  then have "afterDelimiter ((0xFEFF # l) # ls) = afterDelimiter (l # ls)" for l ls
    by (simp add: afterDelimiter_Cons)
  then show ?thesis
    by (simp add: entryLines_def completeLines_Cons [OF n] split: list.splits)
qed

lemma entryLines_streamText: "entryLines (streamText bs) = entryLines (toStringBuffer bs)"
proof (cases "decodeAll initialDecoder bs")
  case Nil
  then show ?thesis
    by (simp add: streamText_def toStringBuffer_decodeAll stripBOM_def)
next
  case (Cons cp rest)
  have "toUnits (0xFEFF # rest) = 0xFEFF # toUnits rest"
    by (simp add: toUnits_def codeUnits_def)
  with Cons show ?thesis
    by (simp add: streamText_def toStringBuffer_decodeAll stripBOM_def entryLines_byteOrderMark)
qed


section \<open>The dependency resolver\<close>

lemma set_newSet [simp]: "set (newSet xs) = set xs"
  by (simp add: newSet_def)

lemma distinct_newSet [simp]: "distinct (newSet xs)"
  by (simp add: newSet_def)

lemma set_nextVisited: "set (nextVisited v e) = set v \<union> set e"
  by (simp add: nextVisited_def)

lemma set_nextEnqueued:
  "set (nextEnqueued rs v) = {d \<in> \<Union> (set ` set rs). d \<noteq> []} - set v"
  by (auto simp: nextEnqueued_def difference_def identity_def)

lemma promiseAll_fulfilled:
  "(\<forall>e\<in>set es. g e \<noteq> None) \<Longrightarrow> \<exists>rs. promiseAll (map g es) = Some rs"
proof (induction es)
  case Nil
  show ?case by simp
next
  case (Cons e es)
  then obtain rs where "promiseAll (map g es) = Some rs"
    by auto
  moreover from Cons.prems obtain ds where "g e = Some ds" by auto
  ultimately show ?case by simp
qed

lemma promiseAll_children:
  "promiseAll (map g es) = Some rs \<Longrightarrow>
   filter identity (concat rs) = concat (map (childDeps g) es)"
proof (induction es arbitrary: rs)
  case Nil
  then show ?case by simp
next
  case (Cons e es)
  then obtain ds rs' where "g e = Some ds" "promiseAll (map g es) = Some rs'" "rs = ds # rs'"
    by (auto split: option.splits)
  with Cons.IH [of rs'] show ?case
    by (simp add: childDeps_def)
qed

lemma promiseAll_map_Some: "promiseAll (map Some xs) = Some xs"
  by (induction xs) simp_all

lemma enqueued_children:
  assumes "promiseAll (map g es) = Some rs"
  shows "set (nextEnqueued rs v) = (\<Union>e\<in>set es. set (childDeps g e)) - set v"
proof -
  have "set (nextEnqueued rs v) = set (filter identity (concat rs)) - set v"
    by (auto simp: nextEnqueued_def difference_def)
  then show ?thesis
    by (simp add: promiseAll_children [OF assms])
qed

lemma reachable_closed:
  assumes "set coords \<subseteq> S" and "\<forall>c\<in>S. set (childDeps g c) \<subseteq> S"
  shows "reachable g coords \<subseteq> S"
proof
  fix d
  assume "d \<in> reachable g coords"
  then obtain c where c: "c \<in> set coords" and cd: "(c, d) \<in> (depEdges g)\<^sup>*"
    by (auto simp: reachable_def)
  from cd show "d \<in> S"
  proof (induction rule: rtrancl_induct)
    case base
    with c assms(1) show ?case by auto
  next
    case (step y z)
    with assms(2) show ?case by (auto simp: depEdges_def)
  qed
qed

lemma reachable_child:
  "c \<in> reachable g coords \<Longrightarrow> d \<in> set (childDeps g c) \<Longrightarrow> d \<in> reachable g coords"
  by (auto simp: reachable_def depEdges_def intro: rtrancl_into_rtrancl)

lemma reachable_coords: "set coords \<subseteq> reachable g coords"
  by (auto simp: reachable_def)

text \<open>
  The recursion ends: twice the number of reachable coordinates not yet visited, plus
  one when every enqueued coordinate is visited already, decreases at every call.
\<close>

lemma dependencyResolver_terminates_in:
  assumes fin: "finite R"
    and closed: "\<forall>c\<in>R. set (childDeps g c) \<subseteq> R"
    and "set v \<union> set e \<subseteq> R"
  shows "\<exists>r. dependencyResolver g v e = Some r"
  using assms(3)
proof (induction "2 * card (R - set v) + (if e \<noteq> [] \<and> set e \<subseteq> set v then 1 else 0 :: nat)"
    arbitrary: v e rule: less_induct)
  case less
  show ?case
  proof (cases "e = []")
    case True
    then show ?thesis
      by (simp add: dependencyResolver.simps [of g v "[]"])
  next
    case False
    show ?thesis
    proof (cases "promiseAll (map g e)")
      case None
      with False show ?thesis
        by (simp add: dependencyResolver.simps [of g v e])
    next
      case (Some rs)
      let ?v = "nextVisited v e" and ?e = "nextEnqueued rs v"
      have sv: "set ?v = set v \<union> set e"
        by (rule set_nextVisited)
      have se: "set ?e = (\<Union>c\<in>set e. set (childDeps g c)) - set v"
        by (rule enqueued_children [OF Some])
      have unfold: "dependencyResolver g v e = dependencyResolver g ?v ?e"
        using False Some by (simp add: dependencyResolver.simps [of g v e])
      have inside: "set ?v \<union> set ?e \<subseteq> R"
        using less.prems closed sv se by auto
      have decrease:
        "2 * card (R - set ?v) + (if ?e \<noteq> [] \<and> set ?e \<subseteq> set ?v then 1 else 0)
           < 2 * card (R - set v) + (if e \<noteq> [] \<and> set e \<subseteq> set v then 1 else 0 :: nat)"
      proof (cases "set e \<subseteq> set v")
        case True
        then have same: "set ?v = set v"
          using sv by auto
        have "set ?e \<inter> set v = {}"
          using se by auto
        with same have "\<not> (?e \<noteq> [] \<and> set ?e \<subseteq> set ?v)"
          by (cases ?e) auto
        with True False same show ?thesis
          by simp
      next
        case False
        then obtain x where x: "x \<in> set e" "x \<notin> set v"
          by auto
        with less.prems have "x \<in> R - set v" "x \<notin> R - set ?v"
          using sv by auto
        moreover have "R - set ?v \<subseteq> R - set v"
          using sv by auto
        ultimately have "R - set ?v \<subset> R - set v"
          by blast
        then have "card (R - set ?v) < card (R - set v)"
          using fin by (simp add: psubset_card_mono)
        with False show ?thesis
          by simp
      qed
      from less.hyps [OF decrease inside] unfold show ?thesis
        by simp
    qed
  qed
qed

lemma dependencyResolver_terminates:
  assumes "finite (reachable g (v @ e))"
  shows "\<exists>r. dependencyResolver g v e = Some r"
proof (rule dependencyResolver_terminates_in [OF assms])
  show "\<forall>c\<in>reachable g (v @ e). set (childDeps g c) \<subseteq> reachable g (v @ e)"
    using reachable_child [of _ g "v @ e"] by auto
  show "set v \<union> set e \<subseteq> reachable g (v @ e)"
    using reachable_coords [of "v @ e" g] by simp
qed

lemma dependencyResolver_reaches:
  assumes fin: "finite (reachable g coords)"
    and ful: "\<forall>c\<in>reachable g coords. g c \<noteq> None"
    and "distinct v"
    and "set coords \<subseteq> set v \<union> set e"
    and "set v \<union> set e \<subseteq> reachable g coords"
    and "\<forall>c\<in>set v. set (childDeps g c) \<subseteq> set v \<union> set e"
  shows "\<exists>ys. dependencyResolver g v e = Some (Some ys) \<and> distinct ys \<and>
           set ys = reachable g coords"
  using assms(3-6)
proof (induction "2 * card (reachable g coords - set v) +
                  (if e \<noteq> [] \<and> set e \<subseteq> set v then 1 else 0 :: nat)"
    arbitrary: v e rule: less_induct)
  case less
  let ?R = "reachable g coords"
  show ?case
  proof (cases "e = []")
    case True
    with less.prems have "?R \<subseteq> set v"
      using reachable_closed [of coords "set v" g] by simp
    with less.prems True have "set v = ?R"
      by auto
    moreover have "dependencyResolver g v e = Some (Some v)"
      using True by (simp add: dependencyResolver.simps [of g v "[]"])
    ultimately show ?thesis
      using less.prems by simp
  next
    case False
    from less.prems ful have "\<forall>c\<in>set e. g c \<noteq> None"
      by auto
    then obtain rs where rs: "promiseAll (map g e) = Some rs"
      using promiseAll_fulfilled by blast
    let ?v = "nextVisited v e" and ?e = "nextEnqueued rs v"
    have sv: "set ?v = set v \<union> set e"
      by (rule set_nextVisited)
    have se: "set ?e = (\<Union>c\<in>set e. set (childDeps g c)) - set v"
      by (rule enqueued_children [OF rs])
    have unfold: "dependencyResolver g v e = dependencyResolver g ?v ?e"
      using False rs by (simp add: dependencyResolver.simps [of g v e])
    have p1: "distinct ?v"
      by (simp add: nextVisited_def)
    have p2: "set coords \<subseteq> set ?v \<union> set ?e"
      using less.prems sv by auto
    have p3: "set ?v \<union> set ?e \<subseteq> ?R"
      using less.prems sv se reachable_child [of _ g coords] by auto
    have p4: "\<forall>c\<in>set ?v. set (childDeps g c) \<subseteq> set ?v \<union> set ?e"
      using less.prems sv se by auto
    have decrease:
      "2 * card (?R - set ?v) + (if ?e \<noteq> [] \<and> set ?e \<subseteq> set ?v then 1 else 0)
         < 2 * card (?R - set v) + (if e \<noteq> [] \<and> set e \<subseteq> set v then 1 else 0 :: nat)"
    proof (cases "set e \<subseteq> set v")
      case True
      then have same: "set ?v = set v"
        using sv by auto
      have "set ?e \<inter> set v = {}"
        using se by auto
      with same have "\<not> (?e \<noteq> [] \<and> set ?e \<subseteq> set ?v)"
        by (cases ?e) auto
      with True False same show ?thesis
        by simp
    next
      case False
      then obtain x where x: "x \<in> set e" "x \<notin> set v"
        by auto
      with less.prems have "x \<in> ?R - set v" "x \<notin> ?R - set ?v"
        using sv by auto
      moreover have "?R - set ?v \<subseteq> ?R - set v"
        using sv by auto
      ultimately have "?R - set ?v \<subset> ?R - set v"
        by blast
      then have "card (?R - set ?v) < card (?R - set v)"
        using fin by (simp add: psubset_card_mono)
      with False show ?thesis
        by simp
    qed
    from less.hyps [OF decrease p1 p2 p3 p4] unfold show ?thesis
      by simp
  qed
qed

lemma resolveDeps_reaches:
  assumes "finite (reachable g coords)"
    and "\<forall>c\<in>reachable g coords. g c \<noteq> None"
  shows "\<exists>ys. resolveDeps g coords = Some (Some ys) \<and> distinct ys \<and>
           set ys = reachable g coords"
  unfolding resolveDeps_def
  using dependencyResolver_reaches [OF assms, of "[]" "newSet coords"] reachable_coords [of coords g]
  by simp

section \<open>The merged map\<close>

lemma latestDefinition_alt:
  "latestDefinition k ms =
     (if filter (\<lambda>m. m k \<noteq> None) ms = [] then None
      else last (filter (\<lambda>m. m k \<noteq> None) ms) k)"
  by (simp add: latestDefinition_def split: list.splits)

lemma latestDefinition_snoc:
  "latestDefinition k (ms @ [m]) = (case m k of None \<Rightarrow> latestDefinition k ms | Some v \<Rightarrow> Some v)"
  by (simp add: latestDefinition_alt split: option.splits)

lemma foldl_objectAssign:
  "k \<noteq> lit ''__proto__'' \<Longrightarrow>
   foldl objectAssign m0 ms k =
     (case latestDefinition k ms of None \<Rightarrow> m0 k | Some v \<Rightarrow> Some v)"
proof (induction ms rule: rev_induct)
  case Nil
  show ?case by (simp add: latestDefinition_def)
next
  case (snoc m ms)
  then show ?case
    by (simp add: latestDefinition_snoc objectAssign_def split: option.splits)
qed

lemma mergeSchemas_latest:
  "k \<noteq> lit ''__proto__'' \<Longrightarrow> mergeSchemas ms k = latestDefinition k ms"
  by (simp add: mergeSchemas_def foldl_objectAssign split: option.splits)

lemma latestDefinition_in:
  assumes "latestDefinition k ms = Some v"
  shows "\<exists>m\<in>set ms. m k = Some v"
proof -
  let ?fs = "filter (\<lambda>m. m k \<noteq> None) ms"
  from assms have ne: "?fs \<noteq> []" and v: "last ?fs k = Some v"
    by (auto simp: latestDefinition_alt split: if_splits)
  then have "last ?fs \<in> set ?fs"
    using last_in_set by blast
  with v show ?thesis by auto
qed

lemma createContext_resolver:
  assumes "resolveDeps getPackageDeps coords = Some (Some pkgs)"
    and "map load pkgs = map Fulfilled ms"
  shows "\<exists>ctx. createContext load getPackageDeps coords = Some (Some ctx) \<and>
           schemaResolver ctx = readProperty (mergeSchemas ms)"
proof -
  have "map (\<lambda>c. fulfilled (load c)) pkgs = map fulfilled (map load pkgs)"
    by simp
  also have "\<dots> = map Some ms"
    by (simp add: assms(2))
  finally have "promiseAll (map (\<lambda>c. fulfilled (load c)) pkgs) = Some ms"
    by (simp add: promiseAll_map_Some)
  with assms(1) show ?thesis
    by (simp add: createContext_def)
qed

section \<open>The samples, evaluated\<close>

lemma sampleParse_simps:
  "sampleParse textMeta = Some valueMeta"
  "sampleParse textMetaCore = Some valueMetaCore"
  "sampleParse textA = Some valueA"
  "sampleParse textB = Some valueB"
  "sampleParse textD = Some valueD"
  "sampleParse textT = Some valueT"
  "sampleParse textCafe = Some valueCafe"
  "sampleParse textCafeCut = Some valueCafeCut"
  "sampleParse (lit ''null'') = Some JNull"
  by code_simp+

lemma considerEntry_valueA:
  "considerEntry m valueA =
     Inr (m(lit ''A'' \<mapsto> valueA, lit ''http://example.org/A'' \<mapsto> valueA))"
  by (simp add: considerEntry_def valueA_def isPrimitive_def hasElements_def
        storeUnder_def setProp_def lit_def)

lemma considerEntry_valueB:
  "considerEntry m valueB =
     Inr (m(lit ''A'' \<mapsto> valueB, lit ''http://example.org/B'' \<mapsto> valueB))"
  by (simp add: considerEntry_def valueB_def isPrimitive_def hasElements_def
        storeUnder_def setProp_def lit_def)

lemma considerEntry_valueD:
  "considerEntry m valueD =
     Inr (m(lit ''D'' \<mapsto> valueD, lit ''http://example.org/fhir-schema/delimiter'' \<mapsto> valueD))"
  by (simp add: considerEntry_def valueD_def isPrimitive_def hasElements_def
        storeUnder_def setProp_def lit_def)

lemma considerEntry_valueCafe:
  "considerEntry m valueCafe = Inr (m(lit ''caf'' @ [0xE9] \<mapsto> valueCafe))"
  by (simp add: considerEntry_def valueCafe_def isPrimitive_def hasElements_def
        storeUnder_def setProp_def lit_def)

lemma considerEntry_valueCafeCut:
  "considerEntry m valueCafeCut = Inr (m(lit ''caf'' @ [0xFFFD, 0xFFFD] \<mapsto> valueCafeCut))"
  by (simp add: considerEntry_def valueCafeCut_def isPrimitive_def hasElements_def
        storeUnder_def setProp_def lit_def)

lemma considerEntry_valueT: "considerEntry m valueT = Inl TypeError"
  by (simp add: considerEntry_def valueT_def isPrimitive_def hasElements_def
        storeUnder_def setProp_def lit_def)


lemma cyclicDeps_resolved:
  "resolveDeps cyclicDeps [''core'', ''ig''] = Some (Some [''core'', ''ig'', ''ext''])"
  by code_simp

lemma cyclicDeps_reachable:
  "reachable cyclicDeps [''core'', ''ig''] \<subseteq> {''core'', ''ig'', ''ext''}"
  by (rule reachable_closed) (auto simp: childDeps_def cyclicDeps_def identity_def)

lemma registryDeps_resolved:
  "resolveDeps registryDeps [''ig''] = Some (Some [''ig'', ''core''])"
  by code_simp

lemma sampleRegistry_loaded:
  "map (\<lambda>c. loadPackageSchemas_browser sampleParse (sampleRegistry c)) [''ig'', ''core''] =
     map Fulfilled [igMap, coreMap]"
  "map (\<lambda>c. loadPackageSchemas_node sampleParse (sampleRegistry c)) [''ig'', ''core''] =
     map Fulfilled [igMap, coreMap]"
proof -
  have e: "entryLines (text_browser igResponse) = [textB]"
    "entryLines (text_browser coreResponse) = [textA]"
    "entryLines (text_node igResponse) = [textB]"
    "entryLines (text_node coreResponse) = [textA]"
    by code_simp+
  have s: "ok igResponse" "\<not> bodyIsNull igResponse" "status igResponse = 200"
    "\<not> bodyFails igResponse"
    "ok coreResponse" "\<not> bodyIsNull coreResponse" "status coreResponse = 200"
    "\<not> bodyFails coreResponse"
    by (simp_all add: igResponse_def coreResponse_def ok_def bodyIsNull_def)
  show "map (\<lambda>c. loadPackageSchemas_browser sampleParse (sampleRegistry c)) [''ig'', ''core''] =
     map Fulfilled [igMap, coreMap]"
    using e s
    by (simp add: sampleRegistry_def loadPackageSchemas_browser_entries sampleParse_simps
          considerEntry_valueA considerEntry_valueB igMap_def coreMap_def)
  show "map (\<lambda>c. loadPackageSchemas_node sampleParse (sampleRegistry c)) [''ig'', ''core''] =
     map Fulfilled [igMap, coreMap]"
    using e s
    by (simp add: sampleRegistry_def loadPackageSchemas_node_entries sampleParse_simps
          considerEntry_valueA considerEntry_valueB igMap_def coreMap_def)
qed

lemma sampleRegistry_metadata:
  "getSpecificLineFromNdjson_browser sampleParse (sampleRegistry ''ig'') 1 = valueMeta"
  "getSpecificLineFromNdjson_browser sampleParse (sampleRegistry ''core'') 1 = valueMetaCore"
  "getSpecificLineFromNdjson_browser sampleParse (sampleRegistry ''ext'') 1 = JNull"
  by code_simp+

lemma sampleMaps_latest: "latestDefinition (lit ''A'') [igMap, coreMap] = Some valueA"
  by (simp add: latestDefinition_def igMap_def coreMap_def lit_def)

lemma sampleContext:
  "createContext (\<lambda>c. loadPackageSchemas_node sampleParse (sampleRegistry c)) registryDeps [''ig''] =
     Some (Some \<lparr>schemaResolver = readProperty (mergeSchemas [igMap, coreMap])\<rparr>)"
proof -
  have "promiseAll (map (\<lambda>c. fulfilled (loadPackageSchemas_node sampleParse (sampleRegistry c)))
          [''ig'', ''core'']) = Some [igMap, coreMap]"
    using sampleRegistry_loaded(2) by simp
  then show ?thesis
    by (simp add: createContext_def registryDeps_resolved)
qed

text \<open>
  The sample with the unterminated last line, and a line feed added at its end.
\<close>

lemma unterminatedResponse_terminated:
  "loadPackageSchemas_browser sampleParse
     (Response (unterminatedResponse\<lparr>body := body unterminatedResponse @ [[lineFeed]]\<rparr>)) =
     Fulfilled coreMap"
  "loadPackageSchemas_node sampleParse
     (Response (unterminatedResponse\<lparr>body := body unterminatedResponse @ [[lineFeed]]\<rparr>)) =
     Fulfilled coreMap"
proof -
  have e: "entryLines (text_browser (unterminatedResponse\<lparr>body := body unterminatedResponse @ [[lineFeed]]\<rparr>)) = [textA]"
    "entryLines (text_node (unterminatedResponse\<lparr>body := body unterminatedResponse @ [[lineFeed]]\<rparr>)) = [textA]"
    by code_simp+
  have s: "ok (unterminatedResponse\<lparr>body := b\<rparr>)" "\<not> bodyIsNull (unterminatedResponse\<lparr>body := b\<rparr>)"
    "status (unterminatedResponse\<lparr>body := b\<rparr>) = 200"
    "\<not> bodyFails (unterminatedResponse\<lparr>body := b\<rparr>)" for b
    by (simp_all add: unterminatedResponse_def ok_def bodyIsNull_def)
  show "loadPackageSchemas_browser sampleParse
     (Response (unterminatedResponse\<lparr>body := body unterminatedResponse @ [[lineFeed]]\<rparr>)) =
     Fulfilled coreMap"
    using e s
    by (simp add: loadPackageSchemas_browser_entries sampleParse_simps considerEntry_valueA coreMap_def)
  show "loadPackageSchemas_node sampleParse
     (Response (unterminatedResponse\<lparr>body := body unterminatedResponse @ [[lineFeed]]\<rparr>)) =
     Fulfilled coreMap"
    using e s
    by (simp add: loadPackageSchemas_node_entries sampleParse_simps considerEntry_valueA coreMap_def)
qed

section \<open>The claims\<close>

subsection \<open>C1: the entry points of the core\<close>

text \<open>
  C1 says that the core exposes the three entry points \<^verbatim>\<open>enumerateElements\<close>,
  \<^verbatim>\<open>validate\<close> and \<^verbatim>\<open>validateElementValue\<close>, each with its declared signature. The
  tests import all three from the module, but its type declarations declare the first
  two only: \<^verbatim>\<open>validateElementValue\<close> has no declared signature.
\<close>

theorem validateElementValue_not_declared:
  "map declaredName declaredFunctions = [''enumerateElements'', ''validate''] \<and>
   List.member importedByTests ''validateElementValue'' \<and>
   declares ''enumerateElements'' \<and> declares ''validate'' \<and>
   \<not> declares ''validateElementValue''"
  by (simp add: declaredFunctions_def importedByTests_def declares_def)

subsection \<open>C2: the lines before and after the delimiter\<close>

text \<open>
  C2 says that exactly the non-blank lines after the delimiter line are parsed and
  considered as FHIR Schema entries, as the description of \<^verbatim>\<open>loadPackageSchemas\<close> does
  (all entries that follow the delimiter line are loaded). The loop tests every line
  for the delimiter text, also after the delimiter line. For a stream of two lines, the
  delimiter line and a primitive type whose \<^verbatim>\<open>url\<close> contains the delimiter text, the
  second line is a non-blank line after the delimiter, it parses, and considering it
  would store it under its name and its url; but the loop skips it, and both variants
  return the empty map.
\<close>

theorem loadPackageSchemas_drops_entry_with_delimiter_text:
  "completeLines (text_browser secondDelimiterResponse) = [delimiterText, textD] \<and>
   completeLines (text_node secondDelimiterResponse) = [delimiterText, textD] \<and>
   includesStr delimiterText delimiter \<and>
   \<not> isBlank textD \<and>
   sampleParse textD = Some valueD \<and>
   isPrimitive valueD \<and>
   considerEntry Map.empty valueD =
     Inr [lit ''D'' \<mapsto> valueD, lit ''http://example.org/fhir-schema/delimiter'' \<mapsto> valueD] \<and>
   loadPackageSchemas_browser sampleParse (Response secondDelimiterResponse) = Fulfilled Map.empty \<and>
   loadPackageSchemas_node sampleParse (Response secondDelimiterResponse) = Fulfilled Map.empty"
proof -
  have l: "completeLines (text_browser secondDelimiterResponse) = [delimiterText, textD]"
    "completeLines (text_node secondDelimiterResponse) = [delimiterText, textD]"
    by code_simp+
  have d: "includesStr delimiterText delimiter" "\<not> isBlank textD" "isPrimitive valueD"
    by code_simp+
  have e: "entryLines (text_browser secondDelimiterResponse) = []"
    "entryLines (text_node secondDelimiterResponse) = []"
    by code_simp+
  have f: "ok secondDelimiterResponse" "\<not> bodyIsNull secondDelimiterResponse"
    "status secondDelimiterResponse = 200" "\<not> bodyFails secondDelimiterResponse"
    by (simp_all add: secondDelimiterResponse_def ok_def bodyIsNull_def)
  show ?thesis
    using l d e f
    by (simp add: loadPackageSchemas_browser_entries loadPackageSchemas_node_entries
          sampleParse_simps considerEntry_valueD)
qed

subsection \<open>C3: what the map retains\<close>




subsection \<open>C4: the schema resolver\<close>

text \<open>
  C4 says that the resolver returns \<^verbatim>\<open>undefined\<close> for every string that is not a key
  of the merged map. \<^verbatim>\<open>allSchemas\<close> is a plain object, so for the names of the
  properties of \<^verbatim>\<open>Object.prototype\<close> the resolver of every context, of either variant,
  returns something else: the inherited property, when no schema has that name, as
  is always the case for \<^verbatim>\<open>__proto__\<close>.
\<close>

theorem schemaResolver_inherits_from_prototype:
  assumes "createContext_browser parse registry getPackageDeps coords = Some (Some ctx) \<or>
           createContext_node parse registry getPackageDeps coords = Some (Some ctx)"
    and "List.member objectPrototypeKeys schemaName"
  shows "schemaResolver ctx schemaName \<noteq> Undefined \<and>
         schemaResolver ctx (lit ''__proto__'') = Inherited (lit ''__proto__'')"
proof -
  from assms(1) obtain ms where ctx: "ctx = \<lparr>schemaResolver = readProperty (mergeSchemas ms)\<rparr>"
    by (auto simp: createContext_browser_def createContext_node_def createContext_def
          split: option.splits)
  have "foldl objectAssign m ms (lit ''__proto__'') = m (lit ''__proto__'')" for m
    by (induction ms arbitrary: m) (simp_all add: objectAssign_def)
  then have "mergeSchemas ms (lit ''__proto__'') = None"
    by (simp add: mergeSchemas_def)
  moreover have "List.member objectPrototypeKeys (lit ''__proto__'')"
    by (simp add: objectPrototypeKeys_def)
  ultimately show ?thesis
    using assms(2) ctx by (simp add: readProperty_def split: option.splits)
qed

text \<open>
  The context of the sample registry: \<^verbatim>\<open>constructor\<close> is no key of the merged map, and
  the resolver returns the inherited property for it; for a name that is neither a key
  nor inherited it returns \<^verbatim>\<open>undefined\<close>.
\<close>

theorem schemaResolver_inherits_from_prototype_witness:
  "createContext_node sampleParse sampleRegistry registryDeps [''ig''] =
     Some (Some \<lparr>schemaResolver = readProperty (mergeSchemas [igMap, coreMap])\<rparr>) \<and>
   List.member objectPrototypeKeys (lit ''constructor'') \<and>
   mergeSchemas [igMap, coreMap] (lit ''constructor'') = None \<and>
   schemaResolver \<lparr>schemaResolver = readProperty (mergeSchemas [igMap, coreMap])\<rparr>
     (lit ''constructor'') = Inherited (lit ''constructor'') \<and>
   schemaResolver \<lparr>schemaResolver = readProperty (mergeSchemas [igMap, coreMap])\<rparr>
     (lit ''__proto__'') = Inherited (lit ''__proto__'') \<and>
   schemaResolver \<lparr>schemaResolver = readProperty (mergeSchemas [igMap, coreMap])\<rparr>
     (lit ''Patient'') = Undefined"
proof -
  have c: "createContext_browser sampleParse sampleRegistry registryDeps [''ig''] =
             Some (Some \<lparr>schemaResolver = readProperty (mergeSchemas [igMap, coreMap])\<rparr>) \<or>
           createContext_node sampleParse sampleRegistry registryDeps [''ig''] =
             Some (Some \<lparr>schemaResolver = readProperty (mergeSchemas [igMap, coreMap])\<rparr>)"
    by (simp add: createContext_node_def sampleContext)
  have k: "List.member objectPrototypeKeys (lit ''constructor'')"
    by code_simp
  have n: "mergeSchemas [igMap, coreMap] (lit ''constructor'') = None"
    "mergeSchemas [igMap, coreMap] (lit ''Patient'') = None"
    by (simp_all add: mergeSchemas_def objectAssign_def igMap_def coreMap_def lit_def)
  have p: "\<not> List.member objectPrototypeKeys (lit ''Patient'')"
    by code_simp
  show ?thesis
    using schemaResolver_inherits_from_prototype [OF c k] sampleContext k n p
    by (simp add: createContext_node_def readProperty_def)
qed

subsection \<open>C5: later packages override earlier ones\<close>

text \<open>
  C5. When the dependencies resolve to the packages \<open>pkgs\<close>, loaded in this order into
  the maps \<open>ms\<close>, the resolver of the context returns, for a key that some of the maps
  have, the one schema that the last of these maps holds under it, in both variants.
\<close>

theorem createContext_latest_package_wins:
  assumes "resolveDeps getPackageDeps coords = Some (Some pkgs)"
    and "latestDefinition k ms = Some v"
  shows "(map (\<lambda>c. loadPackageSchemas_browser parse (registry c)) pkgs = map Fulfilled ms \<longrightarrow>
            (\<exists>ctx. createContext_browser parse registry getPackageDeps coords = Some (Some ctx) \<and>
                   schemaResolver ctx k = Schema v)) \<and>
         (map (\<lambda>c. loadPackageSchemas_node parse (registry c)) pkgs = map Fulfilled ms \<longrightarrow>
            (\<exists>ctx. createContext_node parse registry getPackageDeps coords = Some (Some ctx) \<and>
                   schemaResolver ctx k = Schema v))"
proof (intro conjI impI)
  obtain m where m: "m \<in> set ms" "m k = Some v"
    using latestDefinition_in [OF assms(2)] by blast
  then obtain i where i: "i < length ms" "ms ! i = m"
    by (auto simp: in_set_conv_nth)
  {
    assume l: "map (\<lambda>c. loadPackageSchemas_browser parse (registry c)) pkgs = map Fulfilled ms"
    then have "length pkgs = length ms"
      using length_map by metis
    with l i have "loadPackageSchemas_browser parse (registry (pkgs ! i)) = Fulfilled m"
      using nth_map [of i pkgs "\<lambda>c. loadPackageSchemas_browser parse (registry c)"]
        nth_map [of i ms Fulfilled] by simp
    then have "m (lit ''__proto__'') = None"
      by (rule loadPackageSchemas_browser_proto)
    with m have k: "k \<noteq> lit ''__proto__''" by auto
    obtain ctx where "createContext_browser parse registry getPackageDeps coords = Some (Some ctx)"
      "schemaResolver ctx = readProperty (mergeSchemas ms)"
      using createContext_resolver [OF assms(1) l] by (auto simp: createContext_browser_def)
    with k assms(2)
    show "\<exists>ctx. createContext_browser parse registry getPackageDeps coords = Some (Some ctx) \<and>
                   schemaResolver ctx k = Schema v"
      by (simp add: readProperty_def mergeSchemas_latest)
  }
  {
    assume l: "map (\<lambda>c. loadPackageSchemas_node parse (registry c)) pkgs = map Fulfilled ms"
    then have "length pkgs = length ms"
      using length_map by metis
    with l i have "loadPackageSchemas_node parse (registry (pkgs ! i)) = Fulfilled m"
      using nth_map [of i pkgs "\<lambda>c. loadPackageSchemas_node parse (registry c)"]
        nth_map [of i ms Fulfilled] by simp
    then have "m (lit ''__proto__'') = None"
      by (rule loadPackageSchemas_node_proto)
    with m have k: "k \<noteq> lit ''__proto__''" by auto
    obtain ctx where "createContext_node parse registry getPackageDeps coords = Some (Some ctx)"
      "schemaResolver ctx = readProperty (mergeSchemas ms)"
      using createContext_resolver [OF assms(1) l] by (auto simp: createContext_node_def)
    with k assms(2)
    show "\<exists>ctx. createContext_node parse registry getPackageDeps coords = Some (Some ctx) \<and>
                   schemaResolver ctx k = Schema v"
      by (simp add: readProperty_def mergeSchemas_latest)
  }
qed

text \<open>
  The package \<open>ig\<close> depends on \<open>core\<close>, and both have a schema named \<open>A\<close>: the
  load order is \<open>ig\<close>, \<open>core\<close>, and the name resolves to the schema of \<open>core\<close>.
\<close>

theorem createContext_latest_package_wins_witness:
  "resolveDeps registryDeps [''ig''] = Some (Some [''ig'', ''core'']) \<and>
   latestDefinition (lit ''A'') [igMap, coreMap] = Some valueA \<and>
   igMap (lit ''A'') = Some valueB \<and> coreMap (lit ''A'') = Some valueA \<and>
   map (\<lambda>c. loadPackageSchemas_browser sampleParse (sampleRegistry c)) [''ig'', ''core''] =
     map Fulfilled [igMap, coreMap] \<and>
   map (\<lambda>c. loadPackageSchemas_node sampleParse (sampleRegistry c)) [''ig'', ''core''] =
     map Fulfilled [igMap, coreMap] \<and>
   (\<exists>ctx. createContext_browser sampleParse sampleRegistry registryDeps [''ig''] = Some (Some ctx) \<and>
          schemaResolver ctx (lit ''A'') = Schema valueA) \<and>
   (\<exists>ctx. createContext_node sampleParse sampleRegistry registryDeps [''ig''] = Some (Some ctx) \<and>
          schemaResolver ctx (lit ''A'') = Schema valueA)"
proof -
  have m: "igMap (lit ''A'') = Some valueB" "coreMap (lit ''A'') = Some valueA"
    by (simp_all add: igMap_def coreMap_def lit_def)
  show ?thesis
    using createContext_latest_package_wins [OF registryDeps_resolved sampleMaps_latest,
        of sampleParse sampleRegistry]
      registryDeps_resolved sampleMaps_latest sampleRegistry_loaded m
    by blast
qed

subsection \<open>C8: the dependency resolver ends and returns the reachable coordinates\<close>

text \<open>
  C8, as amended. \<^verbatim>\<open>dependencyResolver\<close> terminates whenever finitely many coordinates
  are reachable from its two sets, cycles or not. When finitely many coordinates are
  reachable from the input and \<^verbatim>\<open>getPackageDeps\<close> rejects for none of them,
  \<^verbatim>\<open>resolveDeps\<close> is fulfilled with a list without duplicates whose members are
  exactly the reachable coordinates. From one call to the next the visited set never
  shrinks, it grows strictly when an enqueued coordinate is outside it, and the newly
  enqueued coordinates are outside the visited set of the call that enqueues them.
\<close>

theorem resolveDeps_returns_reachable_once:
  "(finite (reachable getPackageDeps (visitedDeps @ enqueuedDeps)) \<longrightarrow>
      (\<exists>r. dependencyResolver getPackageDeps visitedDeps enqueuedDeps = Some r)) \<and>
   (finite (reachable getPackageDeps coords) \<and>
    (\<forall>c\<in>reachable getPackageDeps coords. getPackageDeps c \<noteq> None) \<longrightarrow>
      (\<exists>ys. resolveDeps getPackageDeps coords = Some (Some ys) \<and> distinct ys \<and>
            set ys = reachable getPackageDeps coords)) \<and>
   set visitedDeps \<subseteq> set (nextVisited visitedDeps enqueuedDeps) \<and>
   (\<not> set enqueuedDeps \<subseteq> set visitedDeps \<longrightarrow>
      set visitedDeps \<subset> set (nextVisited visitedDeps enqueuedDeps)) \<and>
   set (nextEnqueued resolvedPromises visitedDeps) \<inter> set visitedDeps = {}"
  using dependencyResolver_terminates [of getPackageDeps visitedDeps enqueuedDeps]
    resolveDeps_reaches [of getPackageDeps coords]
  by (auto simp: set_nextVisited set_nextEnqueued)

text \<open>
  A relation with a cycle: \<open>ig\<close> depends on \<open>core\<close> and \<open>ext\<close>, and \<open>ext\<close> on
  \<open>ig\<close>.
\<close>

theorem resolveDeps_returns_reachable_once_witness:
  "finite (reachable cyclicDeps [''core'', ''ig'']) \<and>
   cyclicDeps ''core'' \<noteq> None \<and> cyclicDeps ''ig'' \<noteq> None \<and> cyclicDeps ''ext'' \<noteq> None \<and>
   (''ig'', ''ext'') \<in> depEdges cyclicDeps \<and> (''ext'', ''ig'') \<in> depEdges cyclicDeps \<and>
   resolveDeps cyclicDeps [''core'', ''ig''] = Some (Some [''core'', ''ig'', ''ext'']) \<and>
   reachable cyclicDeps [''core'', ''ig''] = {''core'', ''ig'', ''ext''} \<and>
   dependencyResolver cyclicDeps [''core'', ''ig''] [''core'', ''ext''] =
     Some (Some [''core'', ''ig'', ''ext''])"
proof -
  have fin: "finite (reachable cyclicDeps [''core'', ''ig''])"
    using cyclicDeps_reachable by (rule finite_subset) simp
  have ful: "\<forall>c\<in>reachable cyclicDeps [''core'', ''ig'']. cyclicDeps c \<noteq> None"
    using cyclicDeps_reachable by (auto simp: cyclicDeps_def)
  have edges: "(''ig'', ''ext'') \<in> depEdges cyclicDeps" "(''ext'', ''ig'') \<in> depEdges cyclicDeps"
    by (simp_all add: depEdges_def childDeps_def cyclicDeps_def identity_def)
  have call: "dependencyResolver cyclicDeps [''core'', ''ig''] [''core'', ''ext''] =
     Some (Some [''core'', ''ig'', ''ext''])"
    by code_simp
  have "finite (reachable cyclicDeps [''core'', ''ig'']) \<and>
        (\<forall>c\<in>reachable cyclicDeps [''core'', ''ig'']. cyclicDeps c \<noteq> None) \<longrightarrow>
        (\<exists>ys. resolveDeps cyclicDeps [''core'', ''ig''] = Some (Some ys) \<and> distinct ys \<and>
              set ys = reachable cyclicDeps [''core'', ''ig''])"
    using resolveDeps_returns_reachable_once
      [of cyclicDeps "[''core'', ''ig'']" "[''core'', ''ext'']" "[''core'', ''ig'']" "[]"]
    by (elim conjE)
  with fin ful obtain ys where ys: "resolveDeps cyclicDeps [''core'', ''ig''] = Some (Some ys)"
    "set ys = reachable cyclicDeps [''core'', ''ig'']"
    by blast
  from ys(1) have "ys = [''core'', ''ig'', ''ext'']"
    by (simp add: cyclicDeps_resolved)
  with ys(2) have r: "reachable cyclicDeps [''core'', ''ig''] = {''core'', ''ig'', ''ext''}"
    by auto
  have n: "cyclicDeps ''core'' \<noteq> None" "cyclicDeps ''ig'' \<noteq> None" "cyclicDeps ''ext'' \<noteq> None"
    by (simp_all add: cyclicDeps_def)
  show ?thesis
    using fin n edges call r cyclicDeps_resolved by blast
qed

text \<open>
  C8 as it is written says that the visited set grows strictly and that newly enqueued
  coordinates are outside it. For the input \<open>core\<close>, \<open>ig\<close>, where \<open>ig\<close> depends on
  \<open>core\<close>, the first call enqueues \<open>core\<close> although it passes it on as visited, and
  the second call passes on the visited set it was given.
\<close>

theorem dependencyResolver_revisits_counterexample:
  "promiseAll (map overlapDeps [''core'', ''ig'']) = Some [[], [''core'']] \<and>
   nextVisited [] [''core'', ''ig''] = [''core'', ''ig''] \<and>
   nextEnqueued [[], [''core'']] [] = [''core''] \<and>
   promiseAll (map overlapDeps [''core'']) = Some [[]] \<and>
   nextVisited [''core'', ''ig''] [''core''] = [''core'', ''ig''] \<and>
   nextEnqueued [[]] [''core'', ''ig''] = [] \<and>
   resolveDeps overlapDeps [''core'', ''ig''] = Some (Some [''core'', ''ig''])"
  by code_simp

subsection \<open>C9: an unterminated last line is dropped\<close>

text \<open>
  C9. When the bytes of a response end in a part \<open>final\<close> without a line feed, both
  variants of \<^verbatim>\<open>loadPackageSchemas\<close> return what they return for the stream that ends
  before that part, and \<^verbatim>\<open>getSpecificLineFromNdjson\<close> returns \<^verbatim>\<open>null\<close> for the number
  of the last, unterminated line. The fetch variant decodes the stream as a whole, so
  the stream without the part can come in one chunk; the Node variant decodes chunk
  by chunk, and its chunks are left as they are, cut off where the part begins.
\<close>

theorem unterminated_final_line_discarded:
  assumes "concat (body r) = terminated @ final"
    and "lineFeed \<notin> set final"
  shows "loadPackageSchemas_browser parse (Response r) =
           loadPackageSchemas_browser parse (Response (r\<lparr>body := [terminated]\<rparr>)) \<and>
         loadPackageSchemas_node parse (Response r) =
           loadPackageSchemas_node parse
             (Response (r\<lparr>body := takeBytes (length terminated) (body r)\<rparr>)) \<and>
         getSpecificLineFromNdjson_browser parse (Response r)
           (Suc (length (completeLines (text_browser r)))) = JNull"
proof -
  have "completeLines (text_browser r) = completeLines (text_browser (r\<lparr>body := [terminated]\<rparr>))"
    using assms by (simp add: text_browser_streamText streamText_unterminated)
  then have browser:
    "loadPackageSchemas_browser parse (Response r) =
       loadPackageSchemas_browser parse (Response (r\<lparr>body := [terminated]\<rparr>))"
    by (simp add: loadPackageSchemas_browser_entries entryLines_def ok_def bodyIsNull_def
          split: sum.splits)
  have "lineFeed \<notin> set (drop (length terminated) (concat (body r)))"
    using assms by simp
  then have "completeLines (text_node r) =
             completeLines (text_node (r\<lparr>body := takeBytes (length terminated) (body r)\<rparr>))"
    using takeBytes_lines [of "length terminated" "body r" "[]"] by (simp add: text_node_def)
  then have node:
    "loadPackageSchemas_node parse (Response r) =
       loadPackageSchemas_node parse
         (Response (r\<lparr>body := takeBytes (length terminated) (body r)\<rparr>))"
    by (simp add: loadPackageSchemas_node_entries entryLines_def split: sum.splits)
  have "scanChunks_browser parse (Suc (length (completeLines (text_browser r)))) (0, [])
          (textDecoderStream initialDecoder False (body r)) = JNull"
    using scanChunks_browser_lines [of "[]" parse _ 0 "textDecoderStream initialDecoder False (body r)"]
    by (simp add: text_browser_def)
  then have "getSpecificLineFromNdjson_browser parse (Response r)
               (Suc (length (completeLines (text_browser r)))) = JNull"
    by (simp add: getSpecificLineFromNdjson_browser_def)
  with browser node show ?thesis by simp
qed

text \<open>
  A schema line without a line feed after the delimiter line, in a stream of three
  chunks: the line parses, but the map is empty and line 3 reads as \<^verbatim>\<open>null\<close>. With a
  line feed after it the schema is in the map.
\<close>

theorem unterminated_final_line_discarded_witness:
  "concat (body unterminatedResponse) =
     (lineMeta @ [lineFeed] @ delimiterLine @ [lineFeed]) @ lineA \<and>
   lineFeed \<notin> set lineA \<and>
   toStringBuffer lineA = textA \<and>
   sampleParse textA = Some valueA \<and>
   takeBytes (length (lineMeta @ [lineFeed] @ delimiterLine @ [lineFeed]))
       (body unterminatedResponse) =
     [lineMeta @ [lineFeed] @ take 7 delimiterLine, drop 7 delimiterLine @ [lineFeed]] \<and>
   loadPackageSchemas_browser sampleParse (Response unterminatedResponse) = Fulfilled Map.empty \<and>
   loadPackageSchemas_node sampleParse (Response unterminatedResponse) = Fulfilled Map.empty \<and>
   loadPackageSchemas_browser sampleParse
     (Response (unterminatedResponse\<lparr>body := body unterminatedResponse @ [[lineFeed]]\<rparr>)) =
     Fulfilled coreMap \<and>
   loadPackageSchemas_node sampleParse
     (Response (unterminatedResponse\<lparr>body := body unterminatedResponse @ [[lineFeed]]\<rparr>)) =
     Fulfilled coreMap \<and>
   length (completeLines (text_browser unterminatedResponse)) = 2 \<and>
   getSpecificLineFromNdjson_browser sampleParse (Response unterminatedResponse) 3 = JNull"
proof -
  let ?t = "lineMeta @ [lineFeed] @ delimiterLine @ [lineFeed]"
  have c: "concat (body unterminatedResponse) = ?t @ lineA"
    by code_simp
  have n: "lineFeed \<notin> set lineA"
    by code_simp
  have a: "toStringBuffer lineA = textA"
    by code_simp
  have t: "takeBytes (length ?t) (body unterminatedResponse) =
             [lineMeta @ [lineFeed] @ take 7 delimiterLine, drop 7 delimiterLine @ [lineFeed]]"
    by code_simp
  have e: "entryLines (text_browser (unterminatedResponse\<lparr>body := [?t]\<rparr>)) = []"
    "entryLines (text_node (unterminatedResponse\<lparr>body :=
        [lineMeta @ [lineFeed] @ take 7 delimiterLine, drop 7 delimiterLine @ [lineFeed]]\<rparr>)) = []"
    by code_simp+
  have s: "ok (unterminatedResponse\<lparr>body := b\<rparr>)" "\<not> bodyIsNull (unterminatedResponse\<lparr>body := b\<rparr>)"
    "status (unterminatedResponse\<lparr>body := b\<rparr>) = 200"
    "\<not> bodyFails (unterminatedResponse\<lparr>body := b\<rparr>)" for b
    by (simp_all add: unterminatedResponse_def ok_def bodyIsNull_def)
  have l: "length (completeLines (text_browser unterminatedResponse)) = 2"
    by code_simp
  have three: "Suc 2 = 3" by simp
  have p: "sampleParse textA = Some valueA"
    by (simp add: sampleParse_simps)
  have "loadPackageSchemas_browser sampleParse (Response unterminatedResponse) = Fulfilled Map.empty \<and>
        loadPackageSchemas_node sampleParse (Response unterminatedResponse) = Fulfilled Map.empty \<and>
        getSpecificLineFromNdjson_browser sampleParse (Response unterminatedResponse) 3 = JNull"
    using unterminated_final_line_discarded [OF c n, of sampleParse] t e s l
    by (simp add: loadPackageSchemas_browser_entries loadPackageSchemas_node_entries three
          del: append_assoc)
  then show ?thesis
    using c n a t l p unterminatedResponse_terminated by blast
qed

subsection \<open>C10: the two variants agree\<close>

text \<open>
  C10, as amended. For two responses with status 200 whose bodies, however chunked,
  are the same bytes and do not fail, when the chunks of the Node variant, decoded one
  by one, make the text that the bytes decoded as a whole make (no chunk ends inside a
  character of several bytes), and every non-blank line after the delimiter parses to
  a value other than \<^verbatim>\<open>null\<close> whose \<^verbatim>\<open>name\<close> and \<^verbatim>\<open>url\<close>, when truthy, convert to
  strings, the Node variant and the fetch variant are fulfilled with the same map.
\<close>

theorem loadPackageSchemas_variants_agree:
  assumes "status rn = 200" and "status rb = 200"
    and "\<not> bodyFails rn" and "\<not> bodyFails rb"
    and "concat (body rn) = concat (body rb)"
    and "text_node rn = toStringBuffer (concat (body rn))"
    and "\<forall>l\<in>set (filter (\<lambda>l. \<not> isBlank l) (afterDelimiter (completeLines (text_browser rb)))).
           \<exists>v. parse l = Some v \<and> v \<noteq> JNull \<and>
               keyConverts v (lit ''name'') \<and> keyConverts v (lit ''url'')"
  shows "\<exists>m. loadPackageSchemas_node parse (Response rn) = Fulfilled m \<and>
             loadPackageSchemas_browser parse (Response rb) = Fulfilled m"
proof -
  have same: "entryLines (text_node rn) = entryLines (text_browser rb)"
    using assms(5,6) by (simp add: text_browser_streamText entryLines_streamText)
  have "\<forall>l\<in>set (entryLines (text_browser rb)).
          \<exists>v. parse l = Some v \<and> v \<noteq> JNull \<and>
              keyConverts v (lit ''name'') \<and> keyConverts v (lit ''url'')"
    using assms(7) by (simp add: entryLines_def isEntryLine_def)
  then obtain m where "considerAll parse Map.empty (entryLines (text_browser rb)) = Inr m"
    using considerAll_converts by blast
  with assms(1-4) same show ?thesis
    by (simp add: loadPackageSchemas_browser_entries loadPackageSchemas_node_entries ok_def
          bodyIsNull_def)
qed

text \<open>
  The same bytes in two chunks and in four. The chunks of the Node variant cut no
  character; those of the fetch variant cut the letter U+00E9 of the name in two.
\<close>

theorem loadPackageSchemas_variants_agree_witness:
  "status chunkedResponse = 200 \<and> status rechunkedResponse = 200 \<and>
   \<not> bodyFails chunkedResponse \<and> \<not> bodyFails rechunkedResponse \<and>
   body chunkedResponse \<noteq> body rechunkedResponse \<and>
   concat (body chunkedResponse) = concat (body rechunkedResponse) \<and>
   text_node chunkedResponse = toStringBuffer (concat (body chunkedResponse)) \<and>
   filter (\<lambda>l. \<not> isBlank l) (afterDelimiter (completeLines (text_browser rechunkedResponse))) =
     [textCafe] \<and>
   sampleParse textCafe = Some valueCafe \<and> valueCafe \<noteq> JNull \<and>
   keyConverts valueCafe (lit ''name'') \<and> keyConverts valueCafe (lit ''url'') \<and>
   loadPackageSchemas_node sampleParse (Response chunkedResponse) = Fulfilled cafeMap \<and>
   loadPackageSchemas_browser sampleParse (Response rechunkedResponse) = Fulfilled cafeMap"
proof -
  have s: "status chunkedResponse = 200" "status rechunkedResponse = 200"
    "\<not> bodyFails chunkedResponse" "\<not> bodyFails rechunkedResponse"
    by (simp_all add: chunkedResponse_def rechunkedResponse_def)
  have d: "body chunkedResponse \<noteq> body rechunkedResponse"
    by code_simp
  have c: "concat (body chunkedResponse) = concat (body rechunkedResponse)"
    by code_simp
  have t: "text_node chunkedResponse = toStringBuffer (concat (body chunkedResponse))"
    by code_simp
  have f: "filter (\<lambda>l. \<not> isBlank l)
             (afterDelimiter (completeLines (text_browser rechunkedResponse))) = [textCafe]"
    by code_simp
  have e: "entryLines (text_node chunkedResponse) = [textCafe]"
    by code_simp
  have k: "valueCafe \<noteq> JNull" "keyConverts valueCafe (lit ''name'')"
    "keyConverts valueCafe (lit ''url'')"
    by code_simp+
  have h: "\<forall>l\<in>set (filter (\<lambda>l. \<not> isBlank l)
                    (afterDelimiter (completeLines (text_browser rechunkedResponse)))).
             \<exists>v. sampleParse l = Some v \<and> v \<noteq> JNull \<and>
               keyConverts v (lit ''name'') \<and> keyConverts v (lit ''url'')"
    using k by (simp add: f sampleParse_simps)
  have n: "loadPackageSchemas_node sampleParse (Response chunkedResponse) = Fulfilled cafeMap"
    using s e
    by (simp add: loadPackageSchemas_node_entries sampleParse_simps considerEntry_valueCafe
          cafeMap_def)
  show ?thesis
    using loadPackageSchemas_variants_agree [OF s c t h] s d c t f k n
    by (simp add: sampleParse_simps)
qed

text \<open>
  C10 as it is written fails in four ways. A line \<^verbatim>\<open>null\<close> after the delimiter
  parses, \<^verbatim>\<open>schema.elements\<close> throws, and neither variant returns a map: the fetch
  variant rejects its promise and the Node variant throws from its \<^verbatim>\<open>data\<close> listener.
  The same happens for a schema whose \<^verbatim>\<open>name\<close> is an object with a property
  \<^verbatim>\<open>toString\<close>. For a response with the status 201, which is ok, the fetch variant
  returns the map and the Node variant rejects. And when a chunk ends between the two
  bytes of the letter U+00E9, the Node variant stores the schema under a name with two
  characters U+FFFD in its place, the fetch variant under the name as it is written.
\<close>

theorem loadPackageSchemas_variants_differ_counterexample:
  "status nullEntryResponse = 200 \<and> \<not> bodyFails nullEntryResponse \<and>
   filter (\<lambda>l. \<not> isBlank l) (afterDelimiter (completeLines (text_browser nullEntryResponse))) =
     [lit ''null''] \<and>
   text_node nullEntryResponse = text_browser nullEntryResponse \<and>
   sampleParse (lit ''null'') = Some JNull \<and>
   loadPackageSchemas_node sampleParse (Response nullEntryResponse) = Uncaught TypeError \<and>
   loadPackageSchemas_browser sampleParse (Response nullEntryResponse) = Rejected (Threw TypeError) \<and>
   status unconvertibleResponse = 200 \<and> \<not> bodyFails unconvertibleResponse \<and>
   filter (\<lambda>l. \<not> isBlank l) (afterDelimiter (completeLines (text_browser unconvertibleResponse))) =
     [textT] \<and>
   text_node unconvertibleResponse = text_browser unconvertibleResponse \<and>
   sampleParse textT = Some valueT \<and>
   loadPackageSchemas_node sampleParse (Response unconvertibleResponse) = Uncaught TypeError \<and>
   loadPackageSchemas_browser sampleParse (Response unconvertibleResponse) =
     Rejected (Threw TypeError) \<and>
   status createdResponse = 201 \<and> ok createdResponse \<and> \<not> bodyFails createdResponse \<and>
   filter (\<lambda>l. \<not> isBlank l) (afterDelimiter (completeLines (text_browser createdResponse))) =
     [textA] \<and>
   text_node createdResponse = text_browser createdResponse \<and>
   sampleParse textA = Some valueA \<and>
   loadPackageSchemas_node sampleParse (Response createdResponse) = Rejected NotFetched \<and>
   loadPackageSchemas_browser sampleParse (Response createdResponse) = Fulfilled coreMap \<and>
   status cutResponse = 200 \<and> \<not> bodyFails cutResponse \<and>
   filter (\<lambda>l. \<not> isBlank l) (afterDelimiter (completeLines (text_browser cutResponse))) =
     [textCafe] \<and>
   filter (\<lambda>l. \<not> isBlank l) (afterDelimiter (completeLines (text_node cutResponse))) =
     [textCafeCut] \<and>
   sampleParse textCafe = Some valueCafe \<and>
   sampleParse textCafeCut = Some valueCafeCut \<and>
   loadPackageSchemas_node sampleParse (Response cutResponse) = Fulfilled cafeCutMap \<and>
   loadPackageSchemas_browser sampleParse (Response cutResponse) = Fulfilled cafeMap \<and>
   cafeMap (lit ''caf'' @ [0xE9]) = Some valueCafe \<and>
   cafeCutMap (lit ''caf'' @ [0xE9]) = None"
proof -
  have s: "status nullEntryResponse = 200" "\<not> bodyFails nullEntryResponse"
    "ok nullEntryResponse" "\<not> bodyIsNull nullEntryResponse"
    "status unconvertibleResponse = 200" "\<not> bodyFails unconvertibleResponse"
    "ok unconvertibleResponse" "\<not> bodyIsNull unconvertibleResponse"
    "status createdResponse = 201" "\<not> bodyFails createdResponse"
    "ok createdResponse" "\<not> bodyIsNull createdResponse"
    "status cutResponse = 200" "\<not> bodyFails cutResponse"
    "ok cutResponse" "\<not> bodyIsNull cutResponse"
    by (simp_all add: nullEntryResponse_def unconvertibleResponse_def createdResponse_def
          cutResponse_def ok_def bodyIsNull_def)
  have l: "filter (\<lambda>l. \<not> isBlank l)
             (afterDelimiter (completeLines (text_browser nullEntryResponse))) = [lit ''null'']"
    "filter (\<lambda>l. \<not> isBlank l)
       (afterDelimiter (completeLines (text_browser unconvertibleResponse))) = [textT]"
    "filter (\<lambda>l. \<not> isBlank l)
       (afterDelimiter (completeLines (text_browser createdResponse))) = [textA]"
    "filter (\<lambda>l. \<not> isBlank l)
       (afterDelimiter (completeLines (text_browser cutResponse))) = [textCafe]"
    "filter (\<lambda>l. \<not> isBlank l)
       (afterDelimiter (completeLines (text_node cutResponse))) = [textCafeCut]"
    by code_simp+
  have t: "text_node nullEntryResponse = text_browser nullEntryResponse"
    "text_node unconvertibleResponse = text_browser unconvertibleResponse"
    "text_node createdResponse = text_browser createdResponse"
    by code_simp+
  have e: "entryLines (text_browser nullEntryResponse) = [lit ''null'']"
    "entryLines (text_node nullEntryResponse) = [lit ''null'']"
    "entryLines (text_browser unconvertibleResponse) = [textT]"
    "entryLines (text_node unconvertibleResponse) = [textT]"
    "entryLines (text_browser createdResponse) = [textA]"
    "entryLines (text_browser cutResponse) = [textCafe]"
    "entryLines (text_node cutResponse) = [textCafeCut]"
    by code_simp+
  have m: "cafeMap (lit ''caf'' @ [0xE9]) = Some valueCafe"
    "cafeCutMap (lit ''caf'' @ [0xE9]) = None"
    by (simp_all add: cafeMap_def cafeCutMap_def lit_def)
  have n: "considerEntry Map.empty JNull = Inl TypeError"
    by (simp add: considerEntry_def)
  have loaded:
    "loadPackageSchemas_node sampleParse (Response nullEntryResponse) = Uncaught TypeError"
    "loadPackageSchemas_browser sampleParse (Response nullEntryResponse) = Rejected (Threw TypeError)"
    "loadPackageSchemas_node sampleParse (Response unconvertibleResponse) = Uncaught TypeError"
    "loadPackageSchemas_browser sampleParse (Response unconvertibleResponse) =
       Rejected (Threw TypeError)"
    "loadPackageSchemas_node sampleParse (Response createdResponse) = Rejected NotFetched"
    "loadPackageSchemas_browser sampleParse (Response createdResponse) = Fulfilled coreMap"
    "loadPackageSchemas_node sampleParse (Response cutResponse) = Fulfilled cafeCutMap"
    "loadPackageSchemas_browser sampleParse (Response cutResponse) = Fulfilled cafeMap"
    using s e n
    by (simp_all add: loadPackageSchemas_browser_entries loadPackageSchemas_node_entries
          sampleParse_simps considerEntry_valueT considerEntry_valueA
          considerEntry_valueCafe considerEntry_valueCafeCut coreMap_def cafeMap_def cafeCutMap_def)
  show ?thesis
    using s l t m loaded by (simp add: sampleParse_simps)
qed

end
